theory Spec2Isabelle
  imports Main "HOL-Library.Word" "HOL-Library.Sublist"
begin

unbundle bit_operations_syntax

section \<open>retropad: text search, replace-all and encoding-aware file I/O\<close>

text \<open>
  A shallow embedding of the search/replace routines of \<^verbatim>\<open>retropad.c\<close>
  (\<^verbatim>\<open>FindInEdit\<close>, \<^verbatim>\<open>ReplaceAllOccurrences\<close>, \<^verbatim>\<open>DoFileSave\<close>) and of the
  transcoding routines of \<^verbatim>\<open>file_io.c\<close> (\<^verbatim>\<open>DetectEncoding\<close>, \<^verbatim>\<open>DecodeToWide\<close>,
  \<^verbatim>\<open>LoadTextFile\<close>, \<^verbatim>\<open>WriteUTF8WithBOM\<close>, \<^verbatim>\<open>WriteUTF16LE\<close>, \<^verbatim>\<open>WriteANSI\<close>,
  \<^verbatim>\<open>SaveTextFile\<close>).

  Conventions of the embedding.
  \<^item> A \<^verbatim>\<open>BYTE\<close> is an 8-bit word, a \<^verbatim>\<open>WCHAR\<close> a 16-bit word.
  \<^item> A NUL-terminated wide string is the list of its code units before the terminator;
    a pointer into a string is an offset into that list. A pointer argument the source
    tests against \<^verbatim>\<open>NULL\<close> is an \<open>option\<close>.
  \<^item> Lengths, counts and offsets are natural numbers: the buffers the program can
    allocate stay far below the range of \<^verbatim>\<open>int\<close>, \<^verbatim>\<open>DWORD\<close> and \<^verbatim>\<open>size_t\<close>.
  \<^item> \<^verbatim>\<open>HeapAlloc\<close>, \<^verbatim>\<open>CreateFileW\<close>, \<^verbatim>\<open>ReadFile\<close> and \<^verbatim>\<open>WriteFile\<close> are taken to
    succeed; a file is the list of bytes it holds.
  \<^item> The conversion tables of the operating system (code pages, case mapping) are not
    part of the program: they are the fields of a \<open>platform\<close> record that every
    routine receives.
\<close>

subsection \<open>Data model\<close>

type_synonym BYTE = "8 word"
type_synonym WCHAR = "16 word"

text \<open>\<^verbatim>\<open>typedef enum TextEncoding\<close> of \<^verbatim>\<open>file_io.h\<close>.\<close>

datatype TextEncoding = ENC_UTF8 | ENC_UTF16LE | ENC_UTF16BE | ENC_ANSI

text \<open>The code-page argument of the two conversion calls.\<close>

datatype code_page = CP_ACP | CP_UTF8

text \<open>
  What the operating system contributes: the per-character lower-casing of
  \<^verbatim>\<open>CharLowerBuffW\<close>, and the conversions behind \<^verbatim>\<open>MultiByteToWideChar\<close> and
  \<^verbatim>\<open>WideCharToMultiByte\<close> on a non-empty source. The strict UTF-8 decoder (flag
  \<^verbatim>\<open>MB_ERR_INVALID_CHARS\<close>) may reject its input.
\<close>

record platform =
  CharLowerW :: "WCHAR \<Rightarrow> WCHAR"
  utf8_to_wide_strict :: "BYTE list \<Rightarrow> WCHAR list option"
  utf8_to_wide :: "BYTE list \<Rightarrow> WCHAR list"
  acp_to_wide :: "BYTE list \<Rightarrow> WCHAR list"
  wide_to_utf8 :: "WCHAR list \<Rightarrow> BYTE list"
  wide_to_acp :: "WCHAR list \<Rightarrow> BYTE list"

text \<open>
  The part of \<^verbatim>\<open>g_app\<close> the modelled routines read or write: the text held by the
  edit control, the modified flag and the encoding remembered for the document.
\<close>

record app_state =
  edit_text :: "WCHAR list"
  modified :: bool
  encoding :: TextEncoding

subsection \<open>Library calls\<close>

text \<open>
  \<^verbatim>\<open>CharLowerBuffW(buf, n)\<close> lower-cases the first \<open>n\<close> code units in place; the source
  always passes the whole string.
\<close>

definition CharLowerBuffW :: "platform \<Rightarrow> WCHAR list \<Rightarrow> WCHAR list" where
  "CharLowerBuffW P buf = map (CharLowerW P) buf"

text \<open>
  \<^verbatim>\<open>wcsstr(s, needle)\<close>: the offset of the first occurrence of \<open>needle\<close> in \<open>s\<close>,
  \<open>None\<close> for \<^verbatim>\<open>NULL\<close>. An empty needle is found at offset 0.
\<close>

fun wcsstr :: "WCHAR list \<Rightarrow> WCHAR list \<Rightarrow> nat option" where
  "wcsstr [] needle = (if needle = [] then Some 0 else None)"
| "wcsstr (c # cs) needle =
     (if prefix needle (c # cs) then Some 0 else map_option Suc (wcsstr cs needle))"

text \<open>
  \<^verbatim>\<open>wcsstr(s + p, needle)\<close>, with the result as an offset from \<open>s\<close>. The pointer
  \<open>s + p\<close> lies inside the string up to its terminator (\<open>p \<le> length s\<close>) wherever the
  source forms it; beyond that there is no string to search.
\<close>

definition wcsstr_at :: "WCHAR list \<Rightarrow> nat \<Rightarrow> WCHAR list \<Rightarrow> nat option" where
  "wcsstr_at s p needle =
     (if p \<le> length s then map_option (\<lambda>i. p + i) (wcsstr (drop p s) needle) else None)"

subsection \<open>\<^verbatim>\<open>FindInEdit\<close>\<close>

lemma wcsstr_le_length: "wcsstr s needle = Some i \<Longrightarrow> i \<le> length s"
  by (induction s arbitrary: i) (auto split: if_splits)

lemma wcsstr_at_bounds: "wcsstr_at s p needle = Some i \<Longrightarrow> p \<le> i \<and> i \<le> length s"
  by (auto simp: wcsstr_at_def split: if_splits dest!: wcsstr_le_length)

text \<open>
  The first loop of the backward branch:
  \<^verbatim>\<open>while ((p = wcsstr(p, needleBuf)) != NULL) { idx = p - haystack;
     if (idx < startPos) { found = p; p++; } else break; }\<close>
\<close>

function back_scan :: "WCHAR list \<Rightarrow> WCHAR list \<Rightarrow> nat \<Rightarrow> nat \<Rightarrow> nat option \<Rightarrow> nat option" where
  "back_scan haystack needleBuf startPos p found =
     (case wcsstr_at haystack p needleBuf of
        None \<Rightarrow> found
      | Some idx \<Rightarrow>
          if idx < startPos then back_scan haystack needleBuf startPos (idx + 1) (Some idx)
          else found)"
  by pat_completeness auto
termination
  by (relation "measure (\<lambda>(haystack, needleBuf, startPos, p, found). length haystack + 1 - p)")
     (auto dest!: wcsstr_at_bounds)

declare back_scan.simps [simp del]

text \<open>
  The second loop of the backward branch:
  \<^verbatim>\<open>while ((p = wcsstr(p, needleBuf)) != NULL) { found = p; p++; }\<close>
\<close>

function wrap_scan :: "WCHAR list \<Rightarrow> WCHAR list \<Rightarrow> nat \<Rightarrow> nat option \<Rightarrow> nat option" where
  "wrap_scan haystack needleBuf p found =
     (case wcsstr_at haystack p needleBuf of
        None \<Rightarrow> found
      | Some q \<Rightarrow> wrap_scan haystack needleBuf (q + 1) (Some q))"
  by pat_completeness auto
termination
  by (relation "measure (\<lambda>(haystack, needleBuf, p, found). length haystack + 1 - p)")
     (auto dest!: wcsstr_at_bounds)

declare wrap_scan.simps [simp del]

text \<open>
  \<^verbatim>\<open>FindInEdit(hwndEdit, needle, matchCase, searchDown, startPos, &outStart, &outEnd)\<close>:
  \<open>None\<close> is the return value \<^verbatim>\<open>FALSE\<close>, \<open>Some (outStart, outEnd)\<close> is \<^verbatim>\<open>TRUE\<close> with
  the two out-parameters. The first argument is the text of the edit control.
\<close>

definition FindInEdit ::
  "platform \<Rightarrow> WCHAR list \<Rightarrow> WCHAR list option \<Rightarrow> bool \<Rightarrow> bool \<Rightarrow> nat \<Rightarrow> (nat \<times> nat) option" where
  "FindInEdit P text needle matchCase searchDown startPos0 =
     (case needle of
        None \<Rightarrow> None
      | Some ndl \<Rightarrow>
         (if ndl = [] then None
          else
            let len = length text;
                needleLen = length ndl;
                haystack = (if \<not> matchCase then CharLowerBuffW P text else text);
                needleBuf = (if \<not> matchCase then CharLowerBuffW P ndl else ndl);
                startPos = (if startPos0 > len then len else startPos0);
                found =
                  (if searchDown then
                     (let f = wcsstr_at haystack startPos needleBuf
                      in if f = None \<and> startPos > 0 then wcsstr_at haystack 0 needleBuf else f)
                   else
                     (let f = back_scan haystack needleBuf startPos 0 None
                      in if f = None \<and> startPos < len
                         then wrap_scan haystack needleBuf startPos None else f))
            in case found of
                 None \<Rightarrow> None
               | Some pos \<Rightarrow> Some (pos, pos + needleLen)))"

subsection \<open>\<^verbatim>\<open>ReplaceAllOccurrences\<close>\<close>

text \<open>
  The counting pass:
  \<^verbatim>\<open>while ((p = wcsstr(p, needleBuf)) != NULL) { count++; p += needleLen; }\<close>
  With \<open>needleLen = 0\<close> the cursor would never move, so the loop is a partial function:
  \<open>None\<close> stands for a loop that does not return.
\<close>

partial_function (option) count_pass ::
  "WCHAR list \<Rightarrow> WCHAR list \<Rightarrow> nat \<Rightarrow> nat \<Rightarrow> nat \<Rightarrow> nat option" where
  "count_pass searchBuf needleBuf needleLen p count =
     (case wcsstr_at searchBuf p needleBuf of
        None \<Rightarrow> Some count
      | Some q \<Rightarrow> count_pass searchBuf needleBuf needleLen (q + needleLen) (count + 1))"

text \<open>
  The building pass. \<open>dst\<close> is what has been written to the result buffer so far;
  \<open>searchCur\<close> and \<open>origCur\<close> are the two cursors, into the comparison copy and into the
  original text:
  \<^verbatim>\<open>while ((p = wcsstr(searchCur, needleBuf)) != NULL) {
     delta = p - searchCur; CopyMemory(dst, origCur, delta); dst += delta;
     origCur += delta; searchCur += delta;
     if (replLen) { CopyMemory(dst, replacement, replLen); dst += replLen; }
     origCur += needleLen; searchCur += needleLen; }\<close>
  It returns \<open>dst\<close> and \<open>origCur\<close> as the loop leaves them.
\<close>

partial_function (option) build_pass ::
  "WCHAR list \<Rightarrow> WCHAR list \<Rightarrow> WCHAR list \<Rightarrow> nat \<Rightarrow> WCHAR list \<Rightarrow> nat \<Rightarrow>
   nat \<Rightarrow> nat \<Rightarrow> WCHAR list \<Rightarrow> (WCHAR list \<times> nat) option" where
  "build_pass text searchBuf needleBuf needleLen repl replLen searchCur origCur dst =
     (case wcsstr_at searchBuf searchCur needleBuf of
        None \<Rightarrow> Some (dst, origCur)
      | Some p \<Rightarrow>
          build_pass text searchBuf needleBuf needleLen repl replLen
            (searchCur + (p - searchCur) + needleLen)
            (origCur + (p - searchCur) + needleLen)
            (if replLen \<noteq> 0
             then (dst @ take (p - searchCur) (drop origCur text)) @ take replLen repl
             else dst @ take (p - searchCur) (drop origCur text)))"

text \<open>
  The size the source computes for the result buffer (it allocates one more code unit
  for the terminator):
  \<^verbatim>\<open>newLen = (size_t)len - (size_t)count * needleLen + (size_t)count * replLen\<close>.
\<close>

definition newLen :: "nat \<Rightarrow> nat \<Rightarrow> nat \<Rightarrow> nat \<Rightarrow> nat" where
  "newLen len count needleLen replLen = len - count * needleLen + count * replLen"

text \<open>
  \<^verbatim>\<open>ReplaceAllOccurrences(hwndEdit, needle, replacement, matchCase)\<close> on the application
  state: the returned count, and the state with the text of the edit control replaced
  (\<^verbatim>\<open>SetWindowTextW\<close>) and the modified flag set when something was replaced. The
  outer \<open>option\<close> is \<open>None\<close> when one of the two loops does not return.
\<close>

definition ReplaceAllOccurrences ::
  "platform \<Rightarrow> app_state \<Rightarrow> WCHAR list option \<Rightarrow> WCHAR list option \<Rightarrow> bool \<Rightarrow>
   (nat \<times> app_state) option" where
  "ReplaceAllOccurrences P app needle replacement matchCase =
     (case needle of
        None \<Rightarrow> Some (0, app)
      | Some ndl \<Rightarrow>
         (if ndl = [] then Some (0, app)
          else
            let text = edit_text app;
                len = length text;
                needleLen = length ndl;
                replLen = (case replacement of None \<Rightarrow> 0 | Some r \<Rightarrow> length r);
                repl = (case replacement of None \<Rightarrow> [] | Some r \<Rightarrow> r);
                searchBuf = (if \<not> matchCase then CharLowerBuffW P text else text);
                needleBuf = (if \<not> matchCase then CharLowerBuffW P ndl else ndl)
            in (case count_pass searchBuf needleBuf needleLen 0 0 of
                  None \<Rightarrow> None
                | Some count \<Rightarrow>
                   (if count = 0 then Some (0, app)
                    else
                      (case build_pass text searchBuf needleBuf needleLen repl replLen 0 0 [] of
                         None \<Rightarrow> None
                       | Some (dst, origCur) \<Rightarrow>
                           Some (count,
                                 app\<lparr>edit_text := dst @ drop origCur text,
                                     modified := True\<rparr>))))))"

subsection \<open>\<^verbatim>\<open>file_io.c\<close>: detection and decoding\<close>

text \<open>
  \<^verbatim>\<open>MultiByteToWideChar(cp, flags, src, size, ...)\<close>: the converted code units; the
  count the call returns is their number, and 0 reports failure. The call fails on a
  source of size 0, and with \<^verbatim>\<open>MB_ERR_INVALID_CHARS\<close> (\<open>strict\<close>) on malformed input.
  The source calls it twice, first for the count and then for the units.
\<close>

definition MultiByteToWideChar :: "platform \<Rightarrow> code_page \<Rightarrow> bool \<Rightarrow> BYTE list \<Rightarrow> WCHAR list" where
  "MultiByteToWideChar P cp strict src =
     (if src = [] then []
      else case cp of
             CP_UTF8 \<Rightarrow>
               (if strict
                then (case utf8_to_wide_strict P src of None \<Rightarrow> [] | Some ws \<Rightarrow> ws)
                else utf8_to_wide P src)
           | CP_ACP \<Rightarrow> acp_to_wide P src)"

text \<open>
  \<^verbatim>\<open>WideCharToMultiByte(cp, 0, src, length, ...)\<close>: the converted bytes; the call
  returns their number, and fails with 0 on a source of length 0.
\<close>

definition WideCharToMultiByte :: "platform \<Rightarrow> code_page \<Rightarrow> WCHAR list \<Rightarrow> BYTE list" where
  "WideCharToMultiByte P cp src =
     (if src = [] then []
      else case cp of CP_UTF8 \<Rightarrow> wide_to_utf8 P src | CP_ACP \<Rightarrow> wide_to_acp P src)"

definition DetectEncoding :: "platform \<Rightarrow> BYTE list \<Rightarrow> TextEncoding" where
  "DetectEncoding P data =
     (let size = length data in
      if size \<ge> 2 \<and> data ! 0 = 0xFF \<and> data ! 1 = 0xFE then ENC_UTF16LE
      else if size \<ge> 2 \<and> data ! 0 = 0xFE \<and> data ! 1 = 0xFF then ENC_UTF16BE
      else if size \<ge> 3 \<and> data ! 0 = 0xEF \<and> data ! 1 = 0xBB \<and> data ! 2 = 0xBF then ENC_UTF8
      else
        let wlen = length (MultiByteToWideChar P CP_UTF8 True data)
        in if wlen > 0 then ENC_UTF8 else ENC_ANSI)"

text \<open>
  A code unit from two bytes. \<^verbatim>\<open>CopyMemory\<close> into a \<^verbatim>\<open>WCHAR\<close> buffer reads the low
  byte first; the big-endian branch computes \<^verbatim>\<open>(WCHAR)((hi << 8) | lo)\<close> itself.
\<close>

definition wchar_of :: "BYTE \<Rightarrow> BYTE \<Rightarrow> WCHAR" where
  "wchar_of hi lo = push_bit 8 (ucast hi) OR ucast lo"

text \<open>
  \<^verbatim>\<open>DecodeToWide(data, size, encoding, &outText, &outLength)\<close>: \<open>None\<close> is \<^verbatim>\<open>FALSE\<close>,
  \<open>Some text\<close> is \<^verbatim>\<open>TRUE\<close> with the decoded text (its length is \<^verbatim>\<open>*outLength\<close>).
\<close>

definition DecodeToWide :: "platform \<Rightarrow> BYTE list \<Rightarrow> TextEncoding \<Rightarrow> WCHAR list option" where
  "DecodeToWide P data enc =
     (let size = length data in
      case enc of
        ENC_UTF16LE \<Rightarrow>
          (if size < 2 then None
           else
             let byteOffset = (if data ! 0 = 0xFF \<and> data ! 1 = 0xFE then 2 else 0);
                 wcharCount = (size - byteOffset) div 2
             in Some (map (\<lambda>i. wchar_of (data ! (byteOffset + i * 2 + 1))
                                          (data ! (byteOffset + i * 2)))
                          [0..<wcharCount]))
      | ENC_UTF16BE \<Rightarrow>
          (if size < 2 then None
           else
             let byteOffset = (if data ! 0 = 0xFE \<and> data ! 1 = 0xFF then 2 else 0);
                 wcharCount = (size - byteOffset) div 2
             in Some (map (\<lambda>i. wchar_of (data ! (byteOffset + i * 2))
                                          (data ! (byteOffset + i * 2 + 1)))
                          [0..<wcharCount]))
      | ENC_UTF8 \<Rightarrow>
          (let byteOffset =
                 (if size \<ge> 3 \<and> data ! 0 = 0xEF \<and> data ! 1 = 0xBB \<and> data ! 2 = 0xBF
                  then 3 else 0);
               chars = length (MultiByteToWideChar P CP_UTF8 False (drop byteOffset data))
           in if chars \<le> 0 then None
              else Some (take chars (MultiByteToWideChar P CP_UTF8 False (drop byteOffset data))))
      | ENC_ANSI \<Rightarrow>
          (let chars = length (MultiByteToWideChar P CP_ACP False data)
           in if chars \<le> 0 then None
              else Some (take chars (MultiByteToWideChar P CP_ACP False data))))"

text \<open>
  \<^verbatim>\<open>LoadTextFile\<close>, from the bytes \<^verbatim>\<open>ReadFile\<close> delivered: \<open>None\<close> is \<^verbatim>\<open>FALSE\<close>
  (``Unable to decode file''), \<open>Some (text, enc)\<close> is \<^verbatim>\<open>TRUE\<close> with \<^verbatim>\<open>*textOut\<close> and
  \<^verbatim>\<open>*encodingOut\<close>.
\<close>

definition LoadTextFile :: "platform \<Rightarrow> BYTE list \<Rightarrow> (WCHAR list \<times> TextEncoding) option" where
  "LoadTextFile P buffer =
     (let read = length buffer in
      if read = 0 then Some ([], ENC_UTF8)
      else
        let enc = DetectEncoding P buffer
        in case DecodeToWide P buffer enc of
             None \<Rightarrow> None
           | Some text \<Rightarrow> Some (text, enc))"

subsection \<open>\<^verbatim>\<open>file_io.c\<close>: saving\<close>

text \<open>
  The writers take the bytes already in the file and return \<^verbatim>\<open>TRUE\<close>/\<^verbatim>\<open>FALSE\<close> with
  the bytes the file holds afterwards.
\<close>

definition WriteUTF8WithBOM :: "platform \<Rightarrow> BYTE list \<Rightarrow> WCHAR list \<Rightarrow> bool \<times> BYTE list" where
  "WriteUTF8WithBOM P file text =
     (let file1 = file @ [0xEF, 0xBB, 0xBF];
          bytes = length (WideCharToMultiByte P CP_UTF8 text)
      in if bytes \<le> 0 then (False, file1)
         else (True, file1 @ take bytes (WideCharToMultiByte P CP_UTF8 text)))"

text \<open>The two bytes of a code unit as they lie in memory, low byte first.\<close>

definition wchar_bytes :: "WCHAR \<Rightarrow> BYTE list" where
  "wchar_bytes c = [ucast c, ucast (drop_bit 8 c)]"

definition WriteUTF16LE :: "BYTE list \<Rightarrow> WCHAR list \<Rightarrow> bool \<times> BYTE list" where
  "WriteUTF16LE file text = (True, (file @ [0xFF, 0xFE]) @ concat (map wchar_bytes text))"

definition WriteANSI :: "platform \<Rightarrow> BYTE list \<Rightarrow> WCHAR list \<Rightarrow> bool \<times> BYTE list" where
  "WriteANSI P file text =
     (let bytes = length (WideCharToMultiByte P CP_ACP text)
      in if bytes \<le> 0 then (False, file)
         else (True, file @ take bytes (WideCharToMultiByte P CP_ACP text)))"

text \<open>
  \<^verbatim>\<open>SaveTextFile(owner, path, text, length, encoding)\<close>: the returned \<^verbatim>\<open>BOOL\<close>, the
  bytes of the file at \<open>path\<close> (created empty by \<^verbatim>\<open>CREATE_ALWAYS\<close>), and the value its
  by-value parameter \<open>encoding\<close> holds when the function returns. C does not hand the
  third component back to the caller.
\<close>

definition SaveTextFile ::
  "platform \<Rightarrow> WCHAR list \<Rightarrow> TextEncoding \<Rightarrow> bool \<times> BYTE list \<times> TextEncoding" where
  "SaveTextFile P text enc =
     (let file = [] in
      case enc of
        ENC_UTF16LE \<Rightarrow> (let (ok, f) = WriteUTF16LE file text in (ok, f, enc))
      | ENC_ANSI \<Rightarrow> (let (ok, f) = WriteANSI P file text in (ok, f, enc))
      | ENC_UTF16BE \<Rightarrow> (let (ok, f) = WriteUTF8WithBOM P file text in (ok, f, ENC_UTF8))
      | ENC_UTF8 \<Rightarrow> (let (ok, f) = WriteUTF8WithBOM P file text in (ok, f, enc)))"

text \<open>
  \<^verbatim>\<open>DoFileSave\<close> once the path is settled: it passes \<^verbatim>\<open>g_app.encoding\<close> by value,
  and on success clears the modified flag. Result: the returned \<^verbatim>\<open>BOOL\<close>, the bytes
  of the file, and the application state afterwards.
\<close>

definition DoFileSave :: "platform \<Rightarrow> app_state \<Rightarrow> bool \<times> BYTE list \<times> app_state" where
  "DoFileSave P app =
     (let (ok, file, local_encoding) = SaveTextFile P (edit_text app) (encoding app)
      in (ok, file, if ok then app\<lparr>modified := False\<rparr> else app))"

subsection \<open>A reference platform\<close>

text \<open>
  The theorems below hold for every platform. To instantiate them at concrete inputs
  a platform is needed; this one lower-cases ASCII letters, uses ISO 8859-1 as its
  code page (with \<open>?\<close> for what the page cannot represent) and converts UTF-8 by the
  book: lone surrogates are written as U+FFFD, the strict decoder rejects malformed,
  overlong and surrogate sequences, and the lenient one replaces an offending byte by
  U+FFFD.
\<close>

definition L :: "string \<Rightarrow> WCHAR list" where
  "L s = map of_char s"

definition ref_lower :: "WCHAR \<Rightarrow> WCHAR" where
  "ref_lower c = (if 0x41 \<le> c \<and> c \<le> 0x5A then c + 0x20 else c)"

definition ref_wide_to_acp :: "WCHAR list \<Rightarrow> BYTE list" where
  "ref_wide_to_acp ws = map (\<lambda>c. if c < 0x100 then ucast c else 0x3F) ws"

definition ref_acp_to_wide :: "BYTE list \<Rightarrow> WCHAR list" where
  "ref_acp_to_wide bs = map ucast bs"

fun ref_wide_to_utf8 :: "WCHAR list \<Rightarrow> BYTE list" where
  "ref_wide_to_utf8 [] = []"
| "ref_wide_to_utf8 (c # cs) =
     (let u = unat c in
      if u < 0x80 then of_nat u # ref_wide_to_utf8 cs
      else if u < 0x800 then
        of_nat (0xC0 + u div 64) # of_nat (0x80 + u mod 64) # ref_wide_to_utf8 cs
      else if 0xD800 \<le> u \<and> u < 0xDC00 then
        (case cs of
           [] \<Rightarrow> [0xEF, 0xBF, 0xBD]
         | d # ds \<Rightarrow>
             if 0xDC00 \<le> unat d \<and> unat d < 0xE000 then
               (let cp = 0x10000 + (u - 0xD800) * 1024 + (unat d - 0xDC00) in
                of_nat (0xF0 + cp div 262144) # of_nat (0x80 + cp div 4096 mod 64) #
                of_nat (0x80 + cp div 64 mod 64) # of_nat (0x80 + cp mod 64) #
                ref_wide_to_utf8 ds)
             else [0xEF, 0xBF, 0xBD] @ ref_wide_to_utf8 cs)
      else if 0xDC00 \<le> u \<and> u < 0xE000 then [0xEF, 0xBF, 0xBD] @ ref_wide_to_utf8 cs
      else
        of_nat (0xE0 + u div 4096) # of_nat (0x80 + u div 64 mod 64) #
        of_nat (0x80 + u mod 64) # ref_wide_to_utf8 cs)"

definition is_cont :: "BYTE \<Rightarrow> bool" where
  "is_cont b = (0x80 \<le> b \<and> b < 0xC0)"

text \<open>The scalar value at the head of a byte string, with the number of bytes it takes.\<close>

fun utf8_scalar :: "BYTE list \<Rightarrow> (nat \<times> nat) option" where
  "utf8_scalar [] = None"
| "utf8_scalar (b # bs) =
     (let x = unat b in
      if x < 0x80 then Some (1, x)
      else if 0xC2 \<le> x \<and> x < 0xE0 then
        (case bs of
           b1 # _ \<Rightarrow>
             if is_cont b1 then Some (2, (x - 0xC0) * 64 + (unat b1 - 0x80)) else None
         | _ \<Rightarrow> None)
      else if 0xE0 \<le> x \<and> x < 0xF0 then
        (case bs of
           b1 # b2 # _ \<Rightarrow>
             (let cp = (x - 0xE0) * 4096 + (unat b1 - 0x80) * 64 + (unat b2 - 0x80) in
              if is_cont b1 \<and> is_cont b2 \<and> 0x800 \<le> cp \<and> \<not> (0xD800 \<le> cp \<and> cp < 0xE000)
              then Some (3, cp) else None)
         | _ \<Rightarrow> None)
      else if 0xF0 \<le> x \<and> x < 0xF5 then
        (case bs of
           b1 # b2 # b3 # _ \<Rightarrow>
             (let cp = (x - 0xF0) * 262144 + (unat b1 - 0x80) * 4096 +
                       (unat b2 - 0x80) * 64 + (unat b3 - 0x80) in
              if is_cont b1 \<and> is_cont b2 \<and> is_cont b3 \<and> 0x10000 \<le> cp \<and> cp < 0x110000
              then Some (4, cp) else None)
         | _ \<Rightarrow> None)
      else None)"

lemma utf8_scalar_pos: "utf8_scalar bs = Some (n, cp) \<Longrightarrow> 0 < n"
  by (cases bs) (auto simp: Let_def split: if_splits list.splits)

definition utf16_units :: "nat \<Rightarrow> WCHAR list" where
  "utf16_units cp =
     (if cp < 0x10000 then [of_nat cp]
      else [of_nat (0xD800 + (cp - 0x10000) div 1024),
            of_nat (0xDC00 + (cp - 0x10000) mod 1024)])"

function ref_utf8_to_wide_strict :: "BYTE list \<Rightarrow> WCHAR list option" where
  "ref_utf8_to_wide_strict [] = Some []"
| "ref_utf8_to_wide_strict (b # bs) =
     (case utf8_scalar (b # bs) of
        None \<Rightarrow> None
      | Some (n, cp) \<Rightarrow>
          map_option (\<lambda>ws. utf16_units cp @ ws) (ref_utf8_to_wide_strict (drop n (b # bs))))"
  by pat_completeness auto
termination
  by (relation "measure length") (auto simp del: utf8_scalar.simps dest: utf8_scalar_pos)

function ref_utf8_to_wide :: "BYTE list \<Rightarrow> WCHAR list" where
  "ref_utf8_to_wide [] = []"
| "ref_utf8_to_wide (b # bs) =
     (case utf8_scalar (b # bs) of
        None \<Rightarrow> 0xFFFD # ref_utf8_to_wide bs
      | Some (n, cp) \<Rightarrow> utf16_units cp @ ref_utf8_to_wide (drop n (b # bs)))"
  by pat_completeness auto
termination
  by (relation "measure length") (auto simp del: utf8_scalar.simps dest: utf8_scalar_pos)

definition ref_platform :: platform where
  "ref_platform =
     \<lparr>CharLowerW = ref_lower,
      utf8_to_wide_strict = ref_utf8_to_wide_strict,
      utf8_to_wide = ref_utf8_to_wide,
      acp_to_wide = ref_acp_to_wide,
      wide_to_utf8 = ref_wide_to_utf8,
      wide_to_acp = ref_wide_to_acp\<rparr>"

subsection \<open>Notions used to state the properties\<close>

text \<open>The needle occurs in \<open>s\<close> at offset \<open>i\<close>.\<close>

definition occurs_at :: "WCHAR list \<Rightarrow> WCHAR list \<Rightarrow> nat \<Rightarrow> bool" where
  "occurs_at s needle i = (i \<le> length s \<and> prefix needle (drop i s))"

text \<open>
  The comparison copy of a string: lower-cased for a case-insensitive operation, the
  string itself otherwise.
\<close>

definition comparison_copy :: "platform \<Rightarrow> bool \<Rightarrow> WCHAR list \<Rightarrow> WCHAR list" where
  "comparison_copy P matchCase s = (if \<not> matchCase then CharLowerBuffW P s else s)"

text \<open>
  Counting non-overlapping occurrences from left to right, one position at a time:
  \<open>skip\<close> is the number of positions still covered by the last occurrence counted.
\<close>

fun count_spec :: "nat \<Rightarrow> WCHAR list \<Rightarrow> WCHAR list \<Rightarrow> nat" where
  "count_spec skip [] needle = 0"
| "count_spec (Suc k) (c # cs) needle = count_spec k cs needle"
| "count_spec 0 (c # cs) needle =
     (if prefix needle (c # cs) then Suc (count_spec (length needle - 1) cs needle)
      else count_spec 0 cs needle)"

text \<open>
  Replacing from left to right, one position at a time, over the original text and its
  comparison copy side by side: where the needle occurs in the comparison copy the
  replacement is emitted and the occurrence skipped; everywhere else the code unit of
  the original text is emitted.
\<close>

fun replace_spec ::
  "nat \<Rightarrow> WCHAR list \<Rightarrow> WCHAR list \<Rightarrow> WCHAR list \<Rightarrow> WCHAR list \<Rightarrow> WCHAR list" where
  "replace_spec skip [] cs needle repl = []"
| "replace_spec skip (x # xs) [] needle repl = x # xs"
| "replace_spec (Suc k) (x # xs) (c # cs) needle repl = replace_spec k xs cs needle repl"
| "replace_spec 0 (x # xs) (c # cs) needle repl =
     (if prefix needle (c # cs) then repl @ replace_spec (length needle - 1) xs cs needle repl
      else x # replace_spec 0 xs cs needle repl)"

text \<open>The byte order mark each UTF-16 encoding is recognised by.\<close>

fun utf16_bom :: "TextEncoding \<Rightarrow> BYTE list" where
  "utf16_bom ENC_UTF16LE = [0xFF, 0xFE]"
| "utf16_bom ENC_UTF16BE = [0xFE, 0xFF]"
| "utf16_bom enc = []"

text \<open>The code unit two consecutive bytes stand for in each UTF-16 encoding.\<close>

fun utf16_unit :: "TextEncoding \<Rightarrow> BYTE \<Rightarrow> BYTE \<Rightarrow> WCHAR" where
  "utf16_unit ENC_UTF16BE b0 b1 = push_bit 8 (ucast b0) OR ucast b1"
| "utf16_unit enc b0 b1 = push_bit 8 (ucast b1) OR ucast b0"

text \<open>The strict UTF-8 validation call of \<^verbatim>\<open>DetectEncoding\<close> reports success.\<close>

definition passes_strict_utf8 :: "platform \<Rightarrow> BYTE list \<Rightarrow> bool" where
  "passes_strict_utf8 P data = (0 < length (MultiByteToWideChar P CP_UTF8 True data))"

text \<open>The platform lower-cases the ASCII range the way \<open>ref_lower\<close> does.\<close>

definition lowers_ascii :: "platform \<Rightarrow> bool" where
  "lowers_ascii P = (\<forall>c. c < 0x80 \<longrightarrow> CharLowerW P c = ref_lower c)"

text \<open>A text without unpaired surrogates.\<close>

fun well_formed_utf16 :: "WCHAR list \<Rightarrow> bool" where
  "well_formed_utf16 [] = True"
| "well_formed_utf16 (c # cs) =
     (let u = unat c in
      if 0xD800 \<le> u \<and> u < 0xDC00 then
        (case cs of
           [] \<Rightarrow> False
         | d # ds \<Rightarrow> 0xDC00 \<le> unat d \<and> unat d < 0xE000 \<and> well_formed_utf16 ds)
      else if 0xDC00 \<le> u \<and> u < 0xE000 then False
      else well_formed_utf16 cs)"

text \<open>
  What a platform's conversions are expected to do: the UTF-8 conversion maps every
  non-empty text without unpaired surrogates to a non-empty byte string and back to
  the same text; the code-page conversion does so for every non-empty text over the
  repertoire \<open>S\<close> of the code page.
\<close>

definition utf8_conversion_faithful :: "platform \<Rightarrow> bool" where
  "utf8_conversion_faithful P =
     (\<forall>t. t \<noteq> [] \<and> well_formed_utf16 t \<longrightarrow>
          wide_to_utf8 P t \<noteq> [] \<and> utf8_to_wide P (wide_to_utf8 P t) = t)"

definition acp_conversion_faithful :: "platform \<Rightarrow> WCHAR set \<Rightarrow> bool" where
  "acp_conversion_faithful P S =
     (\<forall>t. t \<noteq> [] \<and> set t \<subseteq> S \<longrightarrow>
          wide_to_acp P t \<noteq> [] \<and> acp_to_wide P (wide_to_acp P t) = t)"

section \<open>Properties\<close>

subsection \<open>Facts about \<^verbatim>\<open>wcsstr\<close>\<close>

lemma wcsstr_Some_iff:
  "wcsstr s needle = Some i \<longleftrightarrow>
     i \<le> length s \<and> prefix needle (drop i s) \<and> (\<forall>j<i. \<not> prefix needle (drop j s))"
proof (induction s arbitrary: i)
  case Nil
  then show ?case by auto
next
  case (Cons c cs)
  show ?case
  proof (cases "prefix needle (c # cs)")
    case True
    then show ?thesis by (cases i) auto
  next
    case False
    show ?thesis
    proof (cases i)
      case 0
      with False show ?thesis by simp
    next
      case (Suc k)
      have "(\<forall>j<Suc k. \<not> prefix needle (drop j (c # cs))) \<longleftrightarrow>
            (\<forall>j<k. \<not> prefix needle (drop j cs))"
        using False by (auto simp: less_Suc_eq_0_disj)
      with False Suc Cons.IH [of k] show ?thesis by auto
    qed
  qed
qed

lemma wcsstr_None_iff:
  "wcsstr s needle = None \<longleftrightarrow> (\<forall>j\<le>length s. \<not> prefix needle (drop j s))"
proof (induction s)
  case Nil
  then show ?case by auto
next
  case (Cons c cs)
  have "(\<forall>j\<le>length (c # cs). \<not> prefix needle (drop j (c # cs))) \<longleftrightarrow>
        \<not> prefix needle (c # cs) \<and> (\<forall>j\<le>length cs. \<not> prefix needle (drop j cs))"
  proof -
    have "(\<forall>j\<le>Suc (length cs). \<not> prefix needle (drop j (c # cs))) \<longleftrightarrow>
          \<not> prefix needle (drop 0 (c # cs)) \<and> (\<forall>j\<le>length cs. \<not> prefix needle (drop (Suc j) (c # cs)))"
      by (metis Suc_le_mono le0 not0_implies_Suc)
    then show ?thesis by simp
  qed
  with Cons show ?case by auto
qed

lemma wcsstr_at_Some_iff:
  "wcsstr_at s p needle = Some i \<longleftrightarrow>
     p \<le> i \<and> occurs_at s needle i \<and> (\<forall>j. p \<le> j \<and> j < i \<longrightarrow> \<not> occurs_at s needle j)"
proof (cases "p \<le> length s")
  case False
  then show ?thesis by (auto simp: wcsstr_at_def occurs_at_def)
next
  case True
  have "(\<forall>j<i - p. \<not> prefix needle (drop (j + p) s)) \<longleftrightarrow>
        (\<forall>j. p \<le> j \<and> j < i \<longrightarrow> \<not> prefix needle (drop j s))"
  proof
    assume h: "\<forall>j<i - p. \<not> prefix needle (drop (j + p) s)"
    show "\<forall>j. p \<le> j \<and> j < i \<longrightarrow> \<not> prefix needle (drop j s)"
    proof (intro allI impI)
      fix j assume "p \<le> j \<and> j < i"
      then have "j - p < i - p" "j - p + p = j" by auto
      with h show "\<not> prefix needle (drop j s)" by metis
    qed
  next
    assume h: "\<forall>j. p \<le> j \<and> j < i \<longrightarrow> \<not> prefix needle (drop j s)"
    show "\<forall>j<i - p. \<not> prefix needle (drop (j + p) s)"
      using h by auto
  qed
  moreover have "wcsstr_at s p needle = Some i \<longleftrightarrow> p \<le> i \<and> wcsstr (drop p s) needle = Some (i - p)"
    using True by (auto simp: wcsstr_at_def)
  ultimately show ?thesis
    using True by (auto simp: wcsstr_Some_iff occurs_at_def add.commute)
qed

lemma wcsstr_at_None_iff:
  "wcsstr_at s p needle = None \<longleftrightarrow> (\<forall>j\<ge>p. \<not> occurs_at s needle j)"
proof (cases "p \<le> length s")
  case False
  then show ?thesis by (auto simp: wcsstr_at_def occurs_at_def)
next
  case True
  have "(\<forall>j\<le>length s - p. \<not> prefix needle (drop (j + p) s)) \<longleftrightarrow>
        (\<forall>j\<ge>p. j \<le> length s \<longrightarrow> \<not> prefix needle (drop j s))"
  proof
    assume h: "\<forall>j\<le>length s - p. \<not> prefix needle (drop (j + p) s)"
    show "\<forall>j\<ge>p. j \<le> length s \<longrightarrow> \<not> prefix needle (drop j s)"
    proof (intro allI impI)
      fix j assume "p \<le> j" "j \<le> length s"
      then have "j - p \<le> length s - p" "j - p + p = j" by auto
      with h show "\<not> prefix needle (drop j s)" by metis
    qed
  next
    assume h: "\<forall>j\<ge>p. j \<le> length s \<longrightarrow> \<not> prefix needle (drop j s)"
    show "\<forall>j\<le>length s - p. \<not> prefix needle (drop (j + p) s)"
      using h True by auto
  qed
  then show ?thesis
    using True by (auto simp: wcsstr_at_def wcsstr_None_iff occurs_at_def add.commute)
qed

lemma occurs_at_bound:
  "needle \<noteq> [] \<Longrightarrow> occurs_at s needle i \<Longrightarrow> i + length needle \<le> length s"
  by (auto simp: occurs_at_def dest!: prefix_length_le)

lemma occurs_at_less: "needle \<noteq> [] \<Longrightarrow> occurs_at s needle i \<Longrightarrow> i < length s"
  using occurs_at_bound [of needle s i] by (cases needle) auto

lemma comparison_copy_length [simp]: "length (comparison_copy P matchCase s) = length s"
  by (simp add: comparison_copy_def CharLowerBuffW_def)

lemma comparison_copy_Nil_iff [simp]: "comparison_copy P matchCase s = [] \<longleftrightarrow> s = []"
  by (simp add: comparison_copy_def CharLowerBuffW_def)


subsection \<open>Facts about \<^verbatim>\<open>FindInEdit\<close>\<close>

lemma FindInEdit_forward:
  assumes "needle \<noteq> []"
  shows "FindInEdit P text (Some needle) matchCase True startPos =
     (let h = comparison_copy P matchCase text;
          n = comparison_copy P matchCase needle;
          s = min startPos (length text)
      in if \<exists>i\<ge>s. occurs_at h n i
         then Some (LEAST i. s \<le> i \<and> occurs_at h n i,
                    (LEAST i. s \<le> i \<and> occurs_at h n i) + length needle)
         else if 0 < startPos \<and> (\<exists>i. occurs_at h n i)
         then Some (LEAST i. occurs_at h n i, (LEAST i. occurs_at h n i) + length needle)
         else None)"
proof -
  define h where "h = comparison_copy P matchCase text"
  define n where "n = comparison_copy P matchCase needle"
  define s where "s = min startPos (length text)"
  have n: "n \<noteq> []" using assms by (simp add: n_def)
  have unfold: "FindInEdit P text (Some needle) matchCase True startPos =
     (case (let f = wcsstr_at h s n in if f = None \<and> s > 0 then wcsstr_at h 0 n else f) of
        None \<Rightarrow> None | Some pos \<Rightarrow> Some (pos, pos + length needle))"
    using assms
    by (auto simp: FindInEdit_def Let_def h_def n_def s_def comparison_copy_def
        CharLowerBuffW_def min_def)
  have s0: "0 < s \<longleftrightarrow> 0 < startPos \<and> text \<noteq> []"
    by (auto simp: s_def min_def)
  have empty: "text = [] \<Longrightarrow> \<not> occurs_at h n i" for i
    using occurs_at_less [OF n, of h i] by (auto simp: h_def)
  show ?thesis
  proof (cases "wcsstr_at h s n")
    case (Some m)
    then have m: "s \<le> m" "occurs_at h n m" "\<And>j. s \<le> j \<Longrightarrow> occurs_at h n j \<Longrightarrow> m \<le> j"
      by (auto simp: wcsstr_at_Some_iff not_less [symmetric])
    then have "(LEAST i. s \<le> i \<and> occurs_at h n i) = m"
      by (intro Least_equality) auto
    moreover have "\<exists>i\<ge>s. occurs_at h n i" using m by blast
    ultimately show ?thesis
      using Some unfolding unfold by (simp add: Let_def h_def [symmetric] n_def [symmetric] s_def [symmetric])
  next
    case None
    then have none: "(\<exists>i\<ge>s. occurs_at h n i) = False"
      by (simp add: wcsstr_at_None_iff)
    show ?thesis
    proof (cases "wcsstr_at h 0 n")
      case None': None
      then have "(\<exists>i. occurs_at h n i) = False" by (simp add: wcsstr_at_None_iff)
      with None None' show ?thesis
        unfolding unfold Let_def h_def [symmetric] n_def [symmetric] s_def [symmetric] none
        by simp
    next
      case (Some m)
      then have m: "occurs_at h n m" "\<And>j. occurs_at h n j \<Longrightarrow> m \<le> j"
        by (auto simp: wcsstr_at_Some_iff not_less [symmetric])
      then have "(LEAST i. occurs_at h n i) = m"
        by (intro Least_equality) auto
      moreover have "(\<exists>i. occurs_at h n i) = True" "text \<noteq> []" using m empty by blast+
      ultimately show ?thesis
        using Some None s0
        unfolding unfold Let_def h_def [symmetric] n_def [symmetric] s_def [symmetric] none
        by simp
    qed
  qed
qed

lemma Max_insert_below:
  fixes A :: "nat set"
  assumes "finite A" "\<forall>a\<in>A. x < a"
  shows "Max (insert x A) = (if A = {} then x else Max A)"
proof (cases "A = {}")
  case True
  then show ?thesis by simp
next
  case False
  then have "Max A \<in> A" using assms by simp
  then have "x \<le> Max A" using assms by (blast intro: less_imp_le)
  then have "max x (Max A) = Max A" by (rule max_absorb2)
  moreover have "Max (insert x A) = max x (Max A)" using assms(1) False by (rule Max_insert)
  ultimately show ?thesis using False by simp
qed

lemma back_scan_eq:
  "back_scan h n s p found =
     (if \<exists>i. p \<le> i \<and> i < s \<and> occurs_at h n i
      then Some (Max {i. p \<le> i \<and> i < s \<and> occurs_at h n i}) else found)"
proof (induction h n s p found rule: back_scan.induct)
  case (1 h n s p found)
  show ?case
  proof (cases "wcsstr_at h p n")
    case None
    then have "(\<exists>i. p \<le> i \<and> i < s \<and> occurs_at h n i) = False"
      by (auto simp: wcsstr_at_None_iff)
    then show ?thesis using None by (subst back_scan.simps) (simp only: option.case if_False)
  next
    case (Some idx)
    then have idx: "p \<le> idx" "occurs_at h n idx"
      and first: "\<And>j. p \<le> j \<Longrightarrow> occurs_at h n j \<Longrightarrow> idx \<le> j"
      by (auto simp: wcsstr_at_Some_iff not_less [symmetric])
    show ?thesis
    proof (cases "idx < s")
      case False
      then have "(\<exists>i. p \<le> i \<and> i < s \<and> occurs_at h n i) = False"
        using first by fastforce
      then show ?thesis using Some False
        by (subst back_scan.simps) (simp only: option.case if_False)
    next
      case True
      define A where "A = {i. p \<le> i \<and> i < s \<and> occurs_at h n i}"
      define B where "B = {i. idx + 1 \<le> i \<and> i < s \<and> occurs_at h n i}"
      have fin: "finite B" by (simp add: B_def)
      have AB: "A = insert idx B"
        using idx True first by (fastforce simp: A_def B_def)
      have above: "\<forall>a\<in>B. idx < a" by (auto simp: B_def)
      have B_ex: "(\<exists>i. idx + 1 \<le> i \<and> i < s \<and> occurs_at h n i) \<longleftrightarrow> B \<noteq> {}"
        by (auto simp: B_def)
      have A_ex: "(\<exists>i. p \<le> i \<and> i < s \<and> occurs_at h n i) = True"
        using idx True by blast
      have "back_scan h n s p found = back_scan h n s (idx + 1) (Some idx)"
        using Some True by (subst back_scan.simps) simp
      also have "\<dots> = (if B \<noteq> {} then Some (Max B) else Some idx)"
        using "1.IH" [OF Some True] unfolding B_ex B_def [symmetric] .
      also have "\<dots> = Some (Max A)"
        unfolding AB using Max_insert_below [OF fin above] by simp
      finally show ?thesis unfolding A_ex A_def by simp
    qed
  qed
qed

lemma wrap_scan_eq:
  "wrap_scan h n p found =
     (if \<exists>i\<ge>p. occurs_at h n i then Some (Max {i. p \<le> i \<and> occurs_at h n i}) else found)"
proof (induction h n p found rule: wrap_scan.induct)
  case (1 h n p found)
  show ?case
  proof (cases "wcsstr_at h p n")
    case None
    then have "(\<exists>i\<ge>p. occurs_at h n i) = False"
      by (auto simp: wcsstr_at_None_iff)
    then show ?thesis using None by (subst wrap_scan.simps) (simp only: option.case if_False)
  next
    case (Some idx)
    then have idx: "p \<le> idx" "occurs_at h n idx"
      and first: "\<And>j. p \<le> j \<Longrightarrow> occurs_at h n j \<Longrightarrow> idx \<le> j"
      by (auto simp: wcsstr_at_Some_iff not_less [symmetric])
    define A where "A = {i. p \<le> i \<and> occurs_at h n i}"
    define B where "B = {i. idx + 1 \<le> i \<and> occurs_at h n i}"
    have "B \<subseteq> {..length h}" by (auto simp: B_def occurs_at_def)
    then have fin: "finite B" by (rule finite_subset) simp
    have AB: "A = insert idx B"
      using idx first by (fastforce simp: A_def B_def)
    have above: "\<forall>a\<in>B. idx < a" by (auto simp: B_def)
    have B_ex: "(\<exists>i\<ge>idx + 1. occurs_at h n i) \<longleftrightarrow> B \<noteq> {}"
      by (auto simp: B_def)
    have A_ex: "(\<exists>i\<ge>p. occurs_at h n i) = True"
      using idx by blast
    have "wrap_scan h n p found = wrap_scan h n (idx + 1) (Some idx)"
      using Some by (subst wrap_scan.simps) simp
    also have "\<dots> = (if B \<noteq> {} then Some (Max B) else Some idx)"
      using "1.IH" [OF Some] unfolding B_ex B_def [symmetric] .
    also have "\<dots> = Some (Max A)"
      unfolding AB using Max_insert_below [OF fin above] by simp
    finally show ?thesis unfolding A_ex A_def by simp
  qed
qed

lemma FindInEdit_backward:
  assumes "needle \<noteq> []"
  shows "FindInEdit P text (Some needle) matchCase False startPos =
     (let h = comparison_copy P matchCase text;
          n = comparison_copy P matchCase needle
      in if \<exists>i. i < startPos \<and> occurs_at h n i
         then Some (Max {i. i < startPos \<and> occurs_at h n i},
                    Max {i. i < startPos \<and> occurs_at h n i} + length needle)
         else if startPos < length text \<and> (\<exists>i\<ge>startPos. occurs_at h n i)
         then Some (Max {i. startPos \<le> i \<and> occurs_at h n i},
                    Max {i. startPos \<le> i \<and> occurs_at h n i} + length needle)
         else None)"
proof -
  define h where "h = comparison_copy P matchCase text"
  define n where "n = comparison_copy P matchCase needle"
  define s where "s = min startPos (length text)"
  have n: "n \<noteq> []" using assms by (simp add: n_def)
  have len: "length h = length text" by (simp add: h_def)
  have unfold: "FindInEdit P text (Some needle) matchCase False startPos =
     (case (let f = back_scan h n s 0 None
            in if f = None \<and> s < length text then wrap_scan h n s None else f) of
        None \<Rightarrow> None | Some pos \<Rightarrow> Some (pos, pos + length needle))"
    using assms
    by (auto simp: FindInEdit_def Let_def h_def n_def s_def comparison_copy_def
        CharLowerBuffW_def min_def)
  have below: "{i. 0 \<le> i \<and> i < s \<and> occurs_at h n i} = {i. i < startPos \<and> occurs_at h n i}"
    using occurs_at_less [OF n, of h] by (auto simp: s_def len)
  have below_ex: "(\<exists>i. 0 \<le> i \<and> i < s \<and> occurs_at h n i) \<longleftrightarrow> (\<exists>i. i < startPos \<and> occurs_at h n i)"
    using below by blast
  have scan1: "back_scan h n s 0 None =
      (if \<exists>i. i < startPos \<and> occurs_at h n i
       then Some (Max {i. i < startPos \<and> occurs_at h n i}) else None)"
    unfolding back_scan_eq below below_ex ..
  have s_eq: "s < length text \<Longrightarrow> s = startPos" by (auto simp: s_def min_def split: if_splits)
  have s_lt: "s < length text \<longleftrightarrow> startPos < length text" by (auto simp: s_def min_def)
  show ?thesis
  proof (cases "\<exists>i. i < startPos \<and> occurs_at h n i")
    case True
    then have c: "(\<exists>i. i < startPos \<and> occurs_at h n i) = True" by simp
    show ?thesis
      unfolding unfold scan1 Let_def h_def [symmetric] n_def [symmetric] c by simp
  next
    case False
    then have c: "(\<exists>i. i < startPos \<and> occurs_at h n i) = False" by simp
    show ?thesis
    proof (cases "startPos < length text")
      case True
      then have "s = startPos" using s_eq s_lt by simp
      then show ?thesis
        using True
        unfolding unfold scan1 Let_def h_def [symmetric] n_def [symmetric] wrap_scan_eq c
        by simp
    next
      case False
      then show ?thesis
        unfolding unfold scan1 Let_def h_def [symmetric] n_def [symmetric] s_lt c
        by simp
    qed
  qed
qed

subsection \<open>Facts about \<^verbatim>\<open>ReplaceAllOccurrences\<close>\<close>

lemma count_spec_skip: "count_spec k cs n = count_spec 0 (drop k cs) n"
proof (induction cs arbitrary: k)
  case Nil
  then show ?case by simp
next
  case (Cons c cs)
  then show ?case by (cases k) simp_all
qed

lemma replace_spec_skip:
  "length xs = length cs \<Longrightarrow>
   replace_spec k xs cs n r = replace_spec 0 (drop k xs) (drop k cs) n r"
proof (induction xs cs arbitrary: k rule: list_induct2)
  case Nil
  then show ?case by simp
next
  case (Cons x xs c cs)
  then show ?case by (cases k) simp_all
qed

lemma count_spec_no_occurrence: "wcsstr cs n = None \<Longrightarrow> count_spec 0 cs n = 0"
  by (induction cs) (auto split: if_splits)

lemma replace_spec_no_occurrence:
  "length xs = length cs \<Longrightarrow> wcsstr cs n = None \<Longrightarrow> replace_spec 0 xs cs n r = xs"
  by (induction xs cs rule: list_induct2) (auto split: if_splits)

lemma count_spec_first_occurrence:
  "n \<noteq> [] \<Longrightarrow> wcsstr cs n = Some d \<Longrightarrow>
   count_spec 0 cs n = Suc (count_spec 0 (drop (d + length n) cs) n)"
proof (induction cs arbitrary: d)
  case Nil
  then show ?case by simp
next
  case (Cons c cs)
  show ?case
  proof (cases "prefix n (c # cs)")
    case True
    with Cons.prems have "d = 0" by simp
    moreover have "drop (length n) (c # cs) = drop (length n - 1) cs"
      using Cons.prems(1) by (cases n) simp_all
    ultimately show ?thesis
      using True count_spec_skip [of "length n - 1" cs n] by simp
  next
    case False
    with Cons.prems obtain d' where d: "d = Suc d'" "wcsstr cs n = Some d'"
      by auto
    with False Cons.IH [OF Cons.prems(1) d(2)] show ?thesis by simp
  qed
qed

lemma replace_spec_first_occurrence:
  "length xs = length cs \<Longrightarrow> n \<noteq> [] \<Longrightarrow> wcsstr cs n = Some d \<Longrightarrow>
   replace_spec 0 xs cs n r =
     take d xs @ r @ replace_spec 0 (drop (d + length n) xs) (drop (d + length n) cs) n r"
proof (induction xs cs arbitrary: d rule: list_induct2)
  case Nil
  then show ?case by simp
next
  case (Cons x xs c cs)
  show ?case
  proof (cases "prefix n (c # cs)")
    case True
    with Cons.prems have "d = 0" by simp
    moreover have "drop (length n) (c # cs) = drop (length n - 1) cs"
      "drop (length n) (x # xs) = drop (length n - 1) xs"
      using Cons.prems(1) by (cases n; simp)+
    ultimately show ?thesis
      using True replace_spec_skip [OF Cons.hyps, of "length n - 1" n r] by simp
  next
    case False
    with Cons.prems obtain d' where d: "d = Suc d'" "wcsstr cs n = Some d'"
      by auto
    with False Cons.IH [OF Cons.prems(1) d(2)] show ?thesis by simp
  qed
qed

lemma wcsstr_Some_bound:
  "wcsstr cs n = Some d \<Longrightarrow> d + length n \<le> length cs"
  by (auto simp: wcsstr_Some_iff dest!: prefix_length_le)

lemma count_pass_eq:
  assumes "nb \<noteq> []"
  shows "p \<le> length sb \<Longrightarrow>
         count_pass sb nb (length nb) p c = Some (c + count_spec 0 (drop p sb) nb)"
proof (induction "length sb - p" arbitrary: p c rule: less_induct)
  case less
  show ?case
  proof (cases "wcsstr (drop p sb) nb")
    case None
    then show ?thesis
      using less.prems
      by (subst count_pass.simps) (simp add: wcsstr_at_def count_spec_no_occurrence)
  next
    case (Some d)
    from wcsstr_Some_bound [OF Some] less.prems
    have bound: "p + d + length nb \<le> length sb" by simp
    have pos: "0 < length nb" using assms by simp
    have dec: "length sb - (p + d + length nb) < length sb - p"
      using bound pos by linarith
    have "count_pass sb nb (length nb) p c =
          count_pass sb nb (length nb) (p + d + length nb) (c + 1)"
      using less.prems Some by (subst count_pass.simps) (simp add: wcsstr_at_def)
    also have "\<dots> = Some (c + 1 + count_spec 0 (drop (p + d + length nb) sb) nb)"
      using bound by (intro less.hyps [OF dec])
    also have "\<dots> = Some (c + count_spec 0 (drop p sb) nb)"
      using count_spec_first_occurrence [OF assms Some] by (simp add: add.commute add.left_commute)
    finally show ?thesis .
  qed
qed

lemma build_pass_eq:
  assumes "nb \<noteq> []" "length text = length sb" "rl = length repl"
  shows "p \<le> length sb \<Longrightarrow>
         \<exists>dst' oc. build_pass text sb nb (length nb) repl rl p p dst = Some (dst', oc) \<and>
            dst' @ drop oc text = dst @ replace_spec 0 (drop p text) (drop p sb) nb repl"
proof (induction "length sb - p" arbitrary: p dst rule: less_induct)
  case less
  have len: "length (drop p text) = length (drop p sb)" using assms(2) by simp
  show ?case
  proof (cases "wcsstr (drop p sb) nb")
    case None
    then show ?thesis
      using less.prems len
      by (subst build_pass.simps) (simp add: wcsstr_at_def replace_spec_no_occurrence)
  next
    case (Some d)
    from wcsstr_Some_bound [OF Some] less.prems
    have bound: "p + d + length nb \<le> length sb" by simp
    have pos: "0 < length nb" using assms by simp
    have dec: "length sb - (p + d + length nb) < length sb - p"
      using bound pos by linarith
    define dst1 where "dst1 = dst @ take d (drop p text) @ repl"
    have "build_pass text sb nb (length nb) repl rl p p dst =
          build_pass text sb nb (length nb) repl rl (p + d + length nb) (p + d + length nb) dst1"
      using less.prems Some assms(3)
      by (subst build_pass.simps) (simp add: wcsstr_at_def dst1_def)
    moreover have "\<exists>dst' oc.
        build_pass text sb nb (length nb) repl rl (p + d + length nb) (p + d + length nb) dst1 =
          Some (dst', oc) \<and>
        dst' @ drop oc text =
          dst1 @ replace_spec 0 (drop (p + d + length nb) text) (drop (p + d + length nb) sb) nb repl"
      using bound by (intro less.hyps [OF dec])
    moreover have "dst1 @ replace_spec 0 (drop (p + d + length nb) text)
                       (drop (p + d + length nb) sb) nb repl =
                   dst @ replace_spec 0 (drop p text) (drop p sb) nb repl"
      using replace_spec_first_occurrence [OF len assms(1) Some, of repl]
      by (simp add: dst1_def add.commute add.left_commute)
    ultimately show ?thesis by simp
  qed
qed

lemma count_spec_zero_iff: "n \<noteq> [] \<Longrightarrow> count_spec 0 cs n = 0 \<longleftrightarrow> wcsstr cs n = None"
  using count_spec_first_occurrence [of n cs] count_spec_no_occurrence [of cs n]
  by (cases "wcsstr cs n") auto

lemma replace_spec_length:
  assumes "n \<noteq> []"
  shows "length xs = length cs \<Longrightarrow>
         length (replace_spec 0 xs cs n r) + count_spec 0 cs n * length n =
           length xs + count_spec 0 cs n * length r"
proof (induction "length cs" arbitrary: xs cs rule: less_induct)
  case less
  show ?case
  proof (cases "wcsstr cs n")
    case None
    then show ?thesis
      using less.prems by (simp add: replace_spec_no_occurrence count_spec_no_occurrence)
  next
    case (Some d)
    define k where "k = d + length n"
    have pos: "0 < length n" using assms by simp
    have k: "k \<le> length cs" "d \<le> k" "0 < k" "k = d + length n"
      using wcsstr_Some_bound [OF Some] pos unfolding k_def by linarith+
    have dec: "length (drop k cs) < length cs"
      unfolding length_drop using k(1) k(3) by linarith
    have eq: "length (drop k xs) = length (drop k cs)" using less.prems by simp
    note IH = less.hyps [OF dec eq]
    have r: "replace_spec 0 xs cs n r =
               take d xs @ r @ replace_spec 0 (drop k xs) (drop k cs) n r"
      unfolding k_def by (rule replace_spec_first_occurrence [OF less.prems assms Some])
    have c: "count_spec 0 cs n = Suc (count_spec 0 (drop k cs) n)"
      unfolding k_def by (rule count_spec_first_occurrence [OF assms Some])
    have "length (take d xs) = d" using k less.prems by simp
    moreover have "length (drop k xs) = length xs - k" by simp
    ultimately show ?thesis
      using IH k less.prems unfolding r c by (simp add: algebra_simps)
  qed
qed

lemma count_spec_bound:
  assumes "n \<noteq> []"
  shows "count_spec 0 cs n * length n \<le> length cs"
  using replace_spec_length [OF assms, of cs cs "[]"] by simp

lemma ReplaceAllOccurrences_eq:
  assumes "needle \<noteq> []"
  shows "ReplaceAllOccurrences P app (Some needle) replacement matchCase =
     (let text = edit_text app;
          sb = comparison_copy P matchCase text;
          nb = comparison_copy P matchCase needle;
          repl = (case replacement of None \<Rightarrow> [] | Some r \<Rightarrow> r);
          count = count_spec 0 sb nb
      in Some (count,
               if count = 0 then app
               else app\<lparr>edit_text := replace_spec 0 text sb nb repl, modified := True\<rparr>))"
proof -
  define orig where "orig = edit_text app"
  define sb where "sb = comparison_copy P matchCase orig"
  define nb where "nb = comparison_copy P matchCase needle"
  define repl where "repl = (case replacement of None \<Rightarrow> [] | Some r \<Rightarrow> r)"
  define rl where "rl = (case replacement of None \<Rightarrow> 0 | Some r \<Rightarrow> length r)"
  have nb: "nb \<noteq> []" "length nb = length needle" using assms by (simp_all add: nb_def)
  have len: "length orig = length sb" by (simp add: sb_def)
  have rl: "rl = length repl" by (simp add: rl_def repl_def split: option.splits)
  have cnt: "count_pass sb nb (length needle) 0 0 = Some (count_spec 0 sb nb)"
    using count_pass_eq [OF nb(1), of 0 sb 0] nb(2) by simp
  obtain dst' oc where
    build: "build_pass orig sb nb (length needle) repl rl 0 0 [] = Some (dst', oc)"
    and out: "dst' @ drop oc orig = replace_spec 0 orig sb nb repl"
    using build_pass_eq [OF nb(1) len rl, of 0 "[]"] nb(2) by auto
  have "ReplaceAllOccurrences P app (Some needle) replacement matchCase =
     (case count_pass sb nb (length needle) 0 0 of
        None \<Rightarrow> None
      | Some count \<Rightarrow>
          if count = 0 then Some (0, app)
          else (case build_pass orig sb nb (length needle) repl rl 0 0 [] of
                  None \<Rightarrow> None
                | Some (dst, origCur) \<Rightarrow>
                    Some (count, app\<lparr>edit_text := dst @ drop origCur orig, modified := True\<rparr>)))"
    using assms
    unfolding ReplaceAllOccurrences_def Let_def orig_def sb_def nb_def repl_def rl_def
      comparison_copy_def
    by simp
  also have "\<dots> = Some (count_spec 0 sb nb,
       if count_spec 0 sb nb = 0 then app
       else app\<lparr>edit_text := replace_spec 0 orig sb nb repl, modified := True\<rparr>)"
    by (simp add: cnt build out)
  finally have "ReplaceAllOccurrences P app (Some needle) replacement matchCase =
     Some (count_spec 0 sb nb,
       if count_spec 0 sb nb = 0 then app
       else app\<lparr>edit_text := replace_spec 0 orig sb nb repl, modified := True\<rparr>)" .
  then show ?thesis
    unfolding Let_def orig_def sb_def nb_def repl_def .
qed

lemma ReplaceAllOccurrences_text:
  assumes "needle \<noteq> []"
    and "ReplaceAllOccurrences P app (Some needle) replacement matchCase = Some (count, app')"
  shows "edit_text app' =
           replace_spec 0 (edit_text app) (comparison_copy P matchCase (edit_text app))
             (comparison_copy P matchCase needle)
             (case replacement of None \<Rightarrow> [] | Some r \<Rightarrow> r)"
proof -
  have nb: "comparison_copy P matchCase needle \<noteq> []" using assms(1) by simp
  have len: "length (edit_text app) = length (comparison_copy P matchCase (edit_text app))"
    by simp
  show ?thesis
  proof (cases "count = 0")
    case True
    then have "app' = app"
      and "wcsstr (comparison_copy P matchCase (edit_text app))
             (comparison_copy P matchCase needle) = None"
      using assms(2) count_spec_zero_iff [OF nb, of "comparison_copy P matchCase (edit_text app)"]
      unfolding ReplaceAllOccurrences_eq [OF assms(1)] Let_def
      by (auto split: if_splits)
    then show ?thesis
      using replace_spec_no_occurrence [OF len] by simp
  next
    case False
    then show ?thesis
      using assms(2) unfolding ReplaceAllOccurrences_eq [OF assms(1)] Let_def
      by (auto split: if_splits)
  qed
qed

lemma lowers_ascii_map:
  "lowers_ascii P \<Longrightarrow> \<forall>c\<in>set s. c < 0x80 \<Longrightarrow> map (CharLowerW P) s = map ref_lower s"
  by (simp add: lowers_ascii_def)

subsection \<open>Facts about detection, decoding and saving\<close>

lemma passes_strict_utf8_iff:
  "passes_strict_utf8 P data \<longleftrightarrow>
     data \<noteq> [] \<and> (\<exists>ws. utf8_to_wide_strict P data = Some ws \<and> ws \<noteq> [])"
  by (auto simp: passes_strict_utf8_def MultiByteToWideChar_def split: option.splits)

lemma prefix2: "prefix [a, b] data \<longleftrightarrow> 2 \<le> length data \<and> data ! 0 = a \<and> data ! 1 = b"
  by (cases data; simp; cases "tl data"; auto)

lemma prefix3:
  "prefix [a, b, c] data \<longleftrightarrow>
     3 \<le> length data \<and> data ! 0 = a \<and> data ! 1 = b \<and> data ! 2 = c"
proof (cases data)
  case Nil
  then show ?thesis by simp
next
  case (Cons x xs)
  then show ?thesis using prefix2 [of b c xs] by (auto simp: numeral_3_eq_3 Suc_le_eq numeral_2_eq_2)
qed

lemma utf16_decode_eq:
  assumes "enc = ENC_UTF16LE \<or> enc = ENC_UTF16BE"
  shows "DecodeToWide P data enc =
     (if length data < 2 then None
      else Some (map (\<lambda>i. utf16_unit enc
                            (data ! ((if prefix (utf16_bom enc) data then 2 else 0) + 2 * i))
                            (data ! ((if prefix (utf16_bom enc) data then 2 else 0) + 2 * i + 1)))
                 [0..<(length data - (if prefix (utf16_bom enc) data then 2 else 0)) div 2]))"
  using assms
  by (auto simp: DecodeToWide_def Let_def prefix2 wchar_of_def mult.commute)

lemma wchar_of_bytes: "wchar_of (ucast (drop_bit 8 c)) (ucast c) = (c::WCHAR)"
  unfolding wchar_of_def
  by (rule bit_word_eqI) (auto simp: bit_simps)

lemma length_concat_wchar_bytes: "length (concat (map wchar_bytes t)) = 2 * length t"
  by (induction t) (simp_all add: wchar_bytes_def)

lemma concat_wchar_bytes_nth:
  "i < length t \<Longrightarrow>
   concat (map wchar_bytes t) ! (2 * i) = ucast (t ! i) \<and>
   concat (map wchar_bytes t) ! (2 * i + 1) = ucast (drop_bit 8 (t ! i))"
proof (induction t arbitrary: i)
  case Nil
  then show ?case by simp
next
  case (Cons c cs)
  show ?case
  proof (cases i)
    case 0
    then show ?thesis by (simp add: wchar_bytes_def)
  next
    case (Suc k)
    with Cons.prems have "k < length cs" by simp
    from Cons.IH [OF this] Suc show ?thesis by (simp add: wchar_bytes_def)
  qed
qed

lemma utf16le_round_trip:
  "SaveTextFile P t ENC_UTF16LE = (True, [0xFF, 0xFE] @ concat (map wchar_bytes t), ENC_UTF16LE) \<and>
   DecodeToWide P ([0xFF, 0xFE] @ concat (map wchar_bytes t)) ENC_UTF16LE = Some t"
proof
  show "SaveTextFile P t ENC_UTF16LE =
          (True, [0xFF, 0xFE] @ concat (map wchar_bytes t), ENC_UTF16LE)"
    by (simp add: SaveTextFile_def WriteUTF16LE_def)
  define data where "data = [0xFF, 0xFE] @ concat (map wchar_bytes t)"
  have len: "length data = 2 + 2 * length t"
    by (simp add: data_def length_concat_wchar_bytes)
  have bom: "data ! 0 = 0xFF" "data ! 1 = 0xFE" by (simp_all add: data_def)
  have unit: "wchar_of (data ! (2 + i * 2 + 1)) (data ! (2 + i * 2)) = t ! i"
    if "i < length t" for i
  proof -
    have "data ! (2 + i * 2) = concat (map wchar_bytes t) ! (2 * i)"
      "data ! (2 + i * 2 + 1) = concat (map wchar_bytes t) ! (2 * i + 1)"
      by (simp_all add: data_def mult.commute)
    with concat_wchar_bytes_nth [OF that] show ?thesis
      by (simp add: wchar_of_bytes)
  qed
  have "map (\<lambda>i. wchar_of (data ! (2 + i * 2 + 1)) (data ! (2 + i * 2))) [0..<length t] =
        map (\<lambda>i. t ! i) [0..<length t]"
  proof (rule map_cong)
    fix i assume "i \<in> set [0..<length t]"
    then have "i < length t" by simp
    then show "wchar_of (data ! (2 + i * 2 + 1)) (data ! (2 + i * 2)) = t ! i" by (rule unit)
  qed simp
  also have "\<dots> = t" by (rule map_nth)
  finally have "DecodeToWide P data ENC_UTF16LE = Some t"
    using len bom by (simp add: DecodeToWide_def Let_def)
  then show "DecodeToWide P ([0xFF, 0xFE] @ concat (map wchar_bytes t)) ENC_UTF16LE = Some t"
    by (simp add: data_def)
qed

lemma utf8_round_trip:
  assumes "t \<noteq> []" "wide_to_utf8 P t \<noteq> []" "utf8_to_wide P (wide_to_utf8 P t) = t"
  shows "SaveTextFile P t ENC_UTF8 = (True, [0xEF, 0xBB, 0xBF] @ wide_to_utf8 P t, ENC_UTF8) \<and>
         DecodeToWide P ([0xEF, 0xBB, 0xBF] @ wide_to_utf8 P t) ENC_UTF8 = Some t"
  using assms
  by (simp add: SaveTextFile_def WriteUTF8WithBOM_def WideCharToMultiByte_def
      DecodeToWide_def MultiByteToWideChar_def Let_def)

lemma ansi_round_trip:
  assumes "t \<noteq> []" "wide_to_acp P t \<noteq> []" "acp_to_wide P (wide_to_acp P t) = t"
  shows "SaveTextFile P t ENC_ANSI = (True, wide_to_acp P t, ENC_ANSI) \<and>
         DecodeToWide P (wide_to_acp P t) ENC_ANSI = Some t"
  using assms
  by (simp add: SaveTextFile_def WriteANSI_def WideCharToMultiByte_def
      DecodeToWide_def MultiByteToWideChar_def Let_def)

lemma empty_text_utf8:
  "SaveTextFile P [] ENC_UTF8 = (False, [0xEF, 0xBB, 0xBF], ENC_UTF8) \<and>
   DecodeToWide P [0xEF, 0xBB, 0xBF] ENC_UTF8 = None"
  by (simp add: SaveTextFile_def WriteUTF8WithBOM_def WideCharToMultiByte_def
      DecodeToWide_def MultiByteToWideChar_def Let_def)

lemma empty_text_ansi:
  "SaveTextFile P [] ENC_ANSI = (False, [], ENC_ANSI) \<and> DecodeToWide P [] ENC_ANSI = None"
  by (simp add: SaveTextFile_def WriteANSI_def WideCharToMultiByte_def
      DecodeToWide_def MultiByteToWideChar_def Let_def)

lemma SaveTextFile_UTF16BE_as_UTF8:
  "fst (SaveTextFile P t ENC_UTF16BE) = fst (SaveTextFile P t ENC_UTF8) \<and>
   fst (snd (SaveTextFile P t ENC_UTF16BE)) = fst (snd (SaveTextFile P t ENC_UTF8)) \<and>
   snd (snd (SaveTextFile P t ENC_UTF16BE)) = ENC_UTF8"
  by (simp add: SaveTextFile_def split: prod.splits)

lemma DoFileSave_keeps_encoding: "encoding (snd (snd (DoFileSave P app))) = encoding app"
  by (simp add: DoFileSave_def split: prod.splits)

subsection \<open>Facts about the reference platform\<close>

lemma unat_byte: "n < 256 \<Longrightarrow> unat (of_nat n :: BYTE) = n"
  by (simp add: unat_of_nat)

lemma is_cont_unat: "is_cont b \<longleftrightarrow> 0x80 \<le> unat b \<and> unat b < 0xC0"
  by (simp add: is_cont_def word_le_nat_alt word_less_nat_alt)

lemma scalar1:
  assumes "unat b0 = x" "x < 0x80"
  shows "utf8_scalar (b0 # rest) = Some (1, x)"
  using assms by simp

lemma scalar2:
  assumes "unat b0 = 0xC0 + h" "2 \<le> h" "h < 32" "unat b1 = 0x80 + l" "l < 64"
  shows "utf8_scalar (b0 # b1 # rest) = Some (2, h * 64 + l)"
  using assms by (simp add: is_cont_unat)

lemma scalar3:
  assumes "unat b0 = 0xE0 + h" "h < 16" "unat b1 = 0x80 + m" "m < 64" "unat b2 = 0x80 + l" "l < 64"
    and "0x800 \<le> h * 4096 + m * 64 + l"
    and "\<not> (0xD800 \<le> h * 4096 + m * 64 + l \<and> h * 4096 + m * 64 + l < 0xE000)"
  shows "utf8_scalar (b0 # b1 # b2 # rest) = Some (3, h * 4096 + m * 64 + l)"
  using assms by (simp add: is_cont_unat)

lemma scalar4:
  assumes "unat b0 = 0xF0 + h" "h < 5" "unat b1 = 0x80 + m1" "m1 < 64"
    "unat b2 = 0x80 + m2" "m2 < 64" "unat b3 = 0x80 + l" "l < 64"
    and "0x10000 \<le> h * 262144 + m1 * 4096 + m2 * 64 + l"
    and "h * 262144 + m1 * 4096 + m2 * 64 + l < 0x110000"
  shows "utf8_scalar (b0 # b1 # b2 # b3 # rest) =
         Some (4, h * 262144 + m1 * 4096 + m2 * 64 + l)"
  using assms by (simp add: is_cont_unat)

lemma split3: "u div 4096 * 4096 + u div 64 mod 64 * 64 + u mod 64 = (u::nat)"
proof -
  have a: "u div 64 * 64 + u mod 64 = u" by (rule div_mult_mod_eq)
  have b: "u div 64 div 64 * 64 + u div 64 mod 64 = u div 64" by (rule div_mult_mod_eq)
  have c: "u div 64 div 64 = u div 4096" by (simp add: div_mult2_eq [symmetric])
  have "u div 4096 * 4096 + u div 64 mod 64 * 64 = (u div 64 div 64 * 64 + u div 64 mod 64) * 64"
    unfolding c by (simp add: algebra_simps)
  then show ?thesis using a b by simp
qed

lemma split4:
  "cp div 262144 * 262144 + cp div 4096 mod 64 * 4096 + cp div 64 mod 64 * 64 + cp mod 64 =
   (cp::nat)"
proof -
  have a: "cp div 4096 * 4096 + cp div 64 mod 64 * 64 + cp mod 64 = cp" by (rule split3)
  have b: "cp div 4096 div 64 * 64 + cp div 4096 mod 64 = cp div 4096" by (rule div_mult_mod_eq)
  have c: "cp div 4096 div 64 = cp div 262144" by (simp add: div_mult2_eq [symmetric])
  have "cp div 262144 * 262144 + cp div 4096 mod 64 * 4096 =
        (cp div 4096 div 64 * 64 + cp div 4096 mod 64) * 4096"
    unfolding c by (simp add: algebra_simps)
  then show ?thesis using a b by simp
qed

lemma decode_head:
  "utf8_scalar (b # bs) = Some (n, cp) \<Longrightarrow>
   ref_utf8_to_wide (b # bs) = utf16_units cp @ ref_utf8_to_wide (drop n (b # bs))"
  by simp

lemma units_bmp: "unat c < 0x10000 \<Longrightarrow> utf16_units (unat c) = [c]"
  by (simp add: utf16_units_def)

lemma units_pair:
  assumes "0xD800 \<le> unat c" "unat c < 0xDC00" "0xDC00 \<le> unat d" "unat d < 0xE000"
  shows "utf16_units (0x10000 + (unat c - 0xD800) * 1024 + (unat d - 0xDC00)) = [c, d]"
proof -
  define lo where "lo = unat d - 0xDC00"
  define hi where "hi = unat c - 0xD800"
  have lo: "lo < 1024" "0xDC00 + lo = unat d" using assms by (auto simp: lo_def)
  have hi: "0xD800 + hi = unat c" using assms by (auto simp: hi_def)
  have dm: "(hi * 1024 + lo) div 1024 = hi" "(hi * 1024 + lo) mod 1024 = lo"
    using lo(1) by simp_all
  have "utf16_units (0x10000 + hi * 1024 + lo) =
        [of_nat (0xD800 + hi), of_nat (0xDC00 + lo)]"
    unfolding utf16_units_def using dm by (simp add: add.assoc)
  also have "\<dots> = [c, d]" unfolding hi lo(2) by simp
  finally show ?thesis unfolding hi_def lo_def .
qed

lemma unat_wchar_bound: "unat (c :: WCHAR) < 0x10000"
  using unsigned_less [of c, where ?'a = nat] by simp

lemma step_bmp:
  assumes "\<not> (0xD800 \<le> unat c \<and> unat c < 0xE000)"
  shows "ref_utf8_to_wide (ref_wide_to_utf8 (c # cs)) =
         c # ref_utf8_to_wide (ref_wide_to_utf8 cs)"
proof -
  define u where "u = unat c"
  define rest where "rest = ref_wide_to_utf8 cs"
  have ub: "u < 0x10000" unfolding u_def by (rule unat_wchar_bound)
  have units: "utf16_units u = [c]" unfolding u_def by (rule units_bmp) (rule unat_wchar_bound)
  consider "u < 0x80" | "0x80 \<le> u" "u < 0x800" | "0x800 \<le> u" by linarith
  then show ?thesis
  proof cases
    case 1
    define b0 :: BYTE where "b0 = of_nat u"
    have enc: "ref_wide_to_utf8 (c # cs) = b0 # rest"
      using 1 by (simp add: b0_def rest_def Let_def u_def [symmetric])
    have u0: "unat b0 = u" unfolding b0_def by (rule unat_byte) (use 1 in simp)
    have "utf8_scalar (b0 # rest) = Some (1, u)" using u0 1 by (rule scalar1)
    from decode_head [OF this] show ?thesis
      unfolding enc units rest_def by simp
  next
    case 2
    define b0 :: BYTE where "b0 = of_nat (0xC0 + u div 64)"
    define b1 :: BYTE where "b1 = of_nat (0x80 + u mod 64)"
    have enc: "ref_wide_to_utf8 (c # cs) = b0 # b1 # rest"
      using 2 by (simp add: b0_def b1_def rest_def Let_def u_def [symmetric])
    have h: "2 \<le> u div 64" "u div 64 < 32" using 2 by simp_all
    have l: "u mod 64 < 64" by simp
    have u0: "unat b0 = 0xC0 + u div 64" unfolding b0_def by (rule unat_byte) (use h in simp)
    have u1: "unat b1 = 0x80 + u mod 64" unfolding b1_def by (rule unat_byte) (use l in simp)
    have "utf8_scalar (b0 # b1 # rest) = Some (2, u div 64 * 64 + u mod 64)"
      using u0 h u1 l by (rule scalar2)
    then have "utf8_scalar (b0 # b1 # rest) = Some (2, u)" by simp
    from decode_head [OF this] show ?thesis
      unfolding enc units rest_def by simp
  next
    case 3
    define b0 :: BYTE where "b0 = of_nat (0xE0 + u div 4096)"
    define b1 :: BYTE where "b1 = of_nat (0x80 + u div 64 mod 64)"
    define b2 :: BYTE where "b2 = of_nat (0x80 + u mod 64)"
    have ns: "(0xD800 \<le> u \<and> u < 0xDC00) = False" "(0xDC00 \<le> u \<and> u < 0xE000) = False"
      using assms unfolding u_def by auto
    have big: "(u < 0x80) = False" "(u < 0x800) = False" using 3 by simp_all
    have enc: "ref_wide_to_utf8 (c # cs) = b0 # b1 # b2 # rest"
      by (simp add: b0_def b1_def b2_def rest_def Let_def u_def [symmetric] ns big)
    have h: "u div 4096 < 16" using ub by simp
    have m: "u div 64 mod 64 < 64" and l: "u mod 64 < 64" by simp_all
    have u0: "unat b0 = 0xE0 + u div 4096" unfolding b0_def by (rule unat_byte) (use h in simp)
    have u1: "unat b1 = 0x80 + u div 64 mod 64"
      unfolding b1_def by (rule unat_byte) (use m in simp)
    have u2: "unat b2 = 0x80 + u mod 64" unfolding b2_def by (rule unat_byte) (use l in simp)
    have cp: "u div 4096 * 4096 + u div 64 mod 64 * 64 + u mod 64 = u" by (rule split3)
    have "utf8_scalar (b0 # b1 # b2 # rest) =
            Some (3, u div 4096 * 4096 + u div 64 mod 64 * 64 + u mod 64)"
      using u0 h u1 m u2 l
    proof (rule scalar3)
      show "0x800 \<le> u div 4096 * 4096 + u div 64 mod 64 * 64 + u mod 64"
        unfolding cp using 3 .
      show "\<not> (0xD800 \<le> u div 4096 * 4096 + u div 64 mod 64 * 64 + u mod 64 \<and>
                u div 4096 * 4096 + u div 64 mod 64 * 64 + u mod 64 < 0xE000)"
        unfolding cp using assms by (simp add: u_def)
    qed
    then have "utf8_scalar (b0 # b1 # b2 # rest) = Some (3, u)" unfolding cp .
    from decode_head [OF this] show ?thesis
      unfolding enc units rest_def by simp
  qed
qed

lemma step_pair:
  assumes "0xD800 \<le> unat c" "unat c < 0xDC00" "0xDC00 \<le> unat d" "unat d < 0xE000"
  shows "ref_utf8_to_wide (ref_wide_to_utf8 (c # d # ds)) =
         c # d # ref_utf8_to_wide (ref_wide_to_utf8 ds)"
proof -
  define cp where "cp = 0x10000 + (unat c - 0xD800) * 1024 + (unat d - 0xDC00)"
  define rest where "rest = ref_wide_to_utf8 ds"
  define b0 :: BYTE where "b0 = of_nat (0xF0 + cp div 262144)"
  define b1 :: BYTE where "b1 = of_nat (0x80 + cp div 4096 mod 64)"
  define b2 :: BYTE where "b2 = of_nat (0x80 + cp div 64 mod 64)"
  define b3 :: BYTE where "b3 = of_nat (0x80 + cp mod 64)"
  have range: "0x10000 \<le> cp" "cp < 0x110000" using assms by (auto simp: cp_def)
  have units: "utf16_units cp = [c, d]" unfolding cp_def using assms by (rule units_pair)
  have c_rng: "(unat c < 0x80) = False" "(unat c < 0x800) = False"
    "(0xD800 \<le> unat c \<and> unat c < 0xDC00) = True" using assms by simp_all
  have d_rng: "(0xDC00 \<le> unat d \<and> unat d < 0xE000) = True" using assms by simp
  have enc: "ref_wide_to_utf8 (c # d # ds) = b0 # b1 # b2 # b3 # rest"
    by (simp add: b0_def b1_def b2_def b3_def rest_def Let_def cp_def c_rng d_rng)
  have h: "cp div 262144 < 5" using range by simp
  have m1: "cp div 4096 mod 64 < 64" and m2: "cp div 64 mod 64 < 64" and l: "cp mod 64 < 64"
    by simp_all
  have u0: "unat b0 = 0xF0 + cp div 262144" unfolding b0_def by (rule unat_byte) (use h in simp)
  have u1: "unat b1 = 0x80 + cp div 4096 mod 64"
    unfolding b1_def by (rule unat_byte) (use m1 in simp)
  have u2: "unat b2 = 0x80 + cp div 64 mod 64"
    unfolding b2_def by (rule unat_byte) (use m2 in simp)
  have u3: "unat b3 = 0x80 + cp mod 64" unfolding b3_def by (rule unat_byte) (use l in simp)
  have eq: "cp div 262144 * 262144 + cp div 4096 mod 64 * 4096 + cp div 64 mod 64 * 64 +
            cp mod 64 = cp" by (rule split4)
  have "utf8_scalar (b0 # b1 # b2 # b3 # rest) =
          Some (4, cp div 262144 * 262144 + cp div 4096 mod 64 * 4096 + cp div 64 mod 64 * 64 +
                   cp mod 64)"
    using u0 h u1 m1 u2 m2 u3 l
  proof (rule scalar4)
    show "0x10000 \<le> cp div 262144 * 262144 + cp div 4096 mod 64 * 4096 +
            cp div 64 mod 64 * 64 + cp mod 64"
      unfolding eq using range(1) .
    show "cp div 262144 * 262144 + cp div 4096 mod 64 * 4096 + cp div 64 mod 64 * 64 +
            cp mod 64 < 0x110000"
      unfolding eq using range(2) .
  qed
  then have "utf8_scalar (b0 # b1 # b2 # b3 # rest) = Some (4, cp)" unfolding eq .
  from decode_head [OF this] show ?thesis
    unfolding enc units rest_def by simp
qed

lemma ref_utf8_round_trip:
  "well_formed_utf16 t \<Longrightarrow> ref_utf8_to_wide (ref_wide_to_utf8 t) = t"
proof (induction t rule: well_formed_utf16.induct)
  case 1
  then show ?case by simp
next
  case (2 c cs)
  show ?case
  proof (cases "0xD800 \<le> unat c \<and> unat c < 0xDC00")
    case True
    with "2.prems" obtain d ds where cs: "cs = d # ds"
      and d: "0xDC00 \<le> unat d" "unat d < 0xE000" and wf: "well_formed_utf16 ds"
      by (auto simp: Let_def split: list.splits)
    from "2.IH"(1) [OF refl True cs wf]
    have "ref_utf8_to_wide (ref_wide_to_utf8 ds) = ds" .
    with step_pair [of c d ds] True d show ?thesis unfolding cs by simp
  next
    case False
    with "2.prems" have ns: "\<not> (0xDC00 \<le> unat c \<and> unat c < 0xE000)"
      and wf: "well_formed_utf16 cs"
      by (auto simp: Let_def split: if_splits)
    from "2.IH"(2) [OF refl False ns wf]
    have "ref_utf8_to_wide (ref_wide_to_utf8 cs) = cs" .
    moreover have "\<not> (0xD800 \<le> unat c \<and> unat c < 0xE000)" using False ns by linarith
    ultimately show ?thesis using step_bmp [of c cs] by simp
  qed
qed

lemma ref_wide_to_utf8_nonempty: "t \<noteq> [] \<Longrightarrow> ref_wide_to_utf8 t \<noteq> []"
  by (cases t) (auto simp: Let_def split: list.splits)

lemma ref_platform_utf8_faithful: "utf8_conversion_faithful ref_platform"
  by (simp add: utf8_conversion_faithful_def ref_platform_def ref_utf8_round_trip
      ref_wide_to_utf8_nonempty)

lemma ucast_byte_back:
  assumes "c < 0x100"
  shows "ucast (ucast c :: BYTE) = (c :: WCHAR)"
proof -
  have small: "unat c < 256" using assms by (simp add: word_less_nat_alt)
  have "unat (ucast (ucast c :: BYTE) :: WCHAR) = unat c"
    using small by (simp add: unsigned_ucast_eq take_bit_eq_mod unat_mod)
  then show ?thesis by (simp add: word_unat_eq_iff)
qed

lemma ref_platform_acp_faithful: "acp_conversion_faithful ref_platform {c. c < 0x100}"
  unfolding acp_conversion_faithful_def
proof (intro allI impI, elim conjE)
  fix t :: "WCHAR list"
  assume t: "t \<noteq> []" "set t \<subseteq> {c. c < 0x100}"
  have "map (\<lambda>c. ucast (if c < 0x100 then ucast c else (0x3F :: BYTE))) t = map (\<lambda>c. c) t"
    by (rule map_cong) (use t(2) ucast_byte_back in auto)
  then show "wide_to_acp ref_platform t \<noteq> [] \<and>
             acp_to_wide ref_platform (wide_to_acp ref_platform t) = t"
    using t(1) by (simp add: ref_platform_def ref_wide_to_acp_def ref_acp_to_wide_def o_def)
qed

section \<open>Specified properties\<close>

text \<open>
  C9. Empty-needle policy: for every text, flags, direction and start offset,
  \<^verbatim>\<open>FindInEdit\<close> with an empty needle reports ``not found''; and for every text and
  replacement, \<^verbatim>\<open>ReplaceAllOccurrences\<close> with an empty needle returns the count 0 and
  leaves the application state, the text of the edit control included, as it was.
\<close>

theorem C9_empty_needle:
  "FindInEdit P text (Some []) matchCase searchDown startPos = None \<and>
   ReplaceAllOccurrences P app (Some []) replacement matchCase = Some (0, app)"
  by (simp add: FindInEdit_def ReplaceAllOccurrences_def)

text \<open>
  C4. Forward search, for a non-empty needle: the start offset is clamped to the
  length of the text; the result is the lowest occurrence at or after the clamped
  offset; if there is none and the start offset is positive, the lowest occurrence in
  the whole text; otherwise ``not found''. Occurrences are sought in the comparison
  copies (lower-cased unless \<open>matchCase\<close>). In ``abcabc'' the needle ``abc'' is found
  at \<open>[3,6)\<close> from offset 3, and at \<open>[0,3)\<close> from offset 4.
\<close>

theorem C4_forward_search:
  "(needle \<noteq> [] \<longrightarrow>
      FindInEdit P text (Some needle) matchCase True startPos =
        (let h = comparison_copy P matchCase text;
             n = comparison_copy P matchCase needle;
             s = min startPos (length text)
         in if \<exists>i\<ge>s. occurs_at h n i
            then Some (LEAST i. s \<le> i \<and> occurs_at h n i,
                       (LEAST i. s \<le> i \<and> occurs_at h n i) + length needle)
            else if 0 < startPos \<and> (\<exists>i. occurs_at h n i)
            then Some (LEAST i. occurs_at h n i, (LEAST i. occurs_at h n i) + length needle)
            else None)) \<and>
   FindInEdit P (L ''abcabc'') (Some (L ''abc'')) True True 3 = Some (3, 6) \<and>
   FindInEdit P (L ''abcabc'') (Some (L ''abc'')) True True 4 = Some (0, 3)"
proof (intro conjI impI)
  assume "needle \<noteq> []"
  then show "FindInEdit P text (Some needle) matchCase True startPos =
        (let h = comparison_copy P matchCase text;
             n = comparison_copy P matchCase needle;
             s = min startPos (length text)
         in if \<exists>i\<ge>s. occurs_at h n i
            then Some (LEAST i. s \<le> i \<and> occurs_at h n i,
                       (LEAST i. s \<le> i \<and> occurs_at h n i) + length needle)
            else if 0 < startPos \<and> (\<exists>i. occurs_at h n i)
            then Some (LEAST i. occurs_at h n i, (LEAST i. occurs_at h n i) + length needle)
            else None)"
    by (rule FindInEdit_forward)
next
  show "FindInEdit P (L ''abcabc'') (Some (L ''abc'')) True True 3 = Some (3, 6)"
    by (simp add: FindInEdit_def L_def wcsstr_at_def)
next
  show "FindInEdit P (L ''abcabc'') (Some (L ''abc'')) True True 4 = Some (0, 3)"
    by (simp add: FindInEdit_def L_def wcsstr_at_def)
qed

text \<open>The hypothesis of C4 at a concrete search that wraps, ignoring case.\<close>

theorem C4_forward_search_witness:
  "L ''bc'' \<noteq> [] \<and>
   FindInEdit ref_platform (L ''aBcAbC'') (Some (L ''bc'')) False True 5 = Some (1, 3)"
  using C4_forward_search [of "L ''bc''" ref_platform "L ''aBcAbC''" False 5]
  by (simp (no_asm) add: FindInEdit_def L_def wcsstr_at_def CharLowerBuffW_def ref_platform_def ref_lower_def)

text \<open>
  C3. Backward search, for a non-empty needle: the result is the greatest occurrence
  that starts strictly before the start offset; if there is none and the start offset
  lies before the end of the text, the greatest occurrence at or after the start
  offset; otherwise ``not found''. In ``xaxa'' the needle ``a'' searched backward from
  offset 3 is found at \<open>[1,2)\<close>.
\<close>

theorem C3_backward_search:
  "(needle \<noteq> [] \<longrightarrow>
      FindInEdit P text (Some needle) matchCase False startPos =
        (let h = comparison_copy P matchCase text;
             n = comparison_copy P matchCase needle
         in if \<exists>i. i < startPos \<and> occurs_at h n i
            then Some (Max {i. i < startPos \<and> occurs_at h n i},
                       Max {i. i < startPos \<and> occurs_at h n i} + length needle)
            else if startPos < length text \<and> (\<exists>i\<ge>startPos. occurs_at h n i)
            then Some (Max {i. startPos \<le> i \<and> occurs_at h n i},
                       Max {i. startPos \<le> i \<and> occurs_at h n i} + length needle)
            else None)) \<and>
   FindInEdit P (L ''xaxa'') (Some (L ''a'')) True False 3 = Some (1, 2)"
proof (intro conjI impI)
  assume "needle \<noteq> []"
  then show "FindInEdit P text (Some needle) matchCase False startPos =
        (let h = comparison_copy P matchCase text;
             n = comparison_copy P matchCase needle
         in if \<exists>i. i < startPos \<and> occurs_at h n i
            then Some (Max {i. i < startPos \<and> occurs_at h n i},
                       Max {i. i < startPos \<and> occurs_at h n i} + length needle)
            else if startPos < length text \<and> (\<exists>i\<ge>startPos. occurs_at h n i)
            then Some (Max {i. startPos \<le> i \<and> occurs_at h n i},
                       Max {i. startPos \<le> i \<and> occurs_at h n i} + length needle)
            else None)"
    by (rule FindInEdit_backward)
next
  show "FindInEdit P (L ''xaxa'') (Some (L ''a'')) True False 3 = Some (1, 2)"
    by (simp add: FindInEdit_def L_def wcsstr_at_def back_scan.simps)
qed

text \<open>The hypothesis of C3 at a concrete search that wraps, ignoring case.\<close>

theorem C3_backward_search_witness:
  "L ''A'' \<noteq> [] \<and>
   FindInEdit ref_platform (L ''xaxAx'') (Some (L ''A'')) False False 1 = Some (3, 4)"
  using C3_backward_search [of "L ''A''" ref_platform "L ''xaxAx''" False 1]
  by (simp (no_asm) add: FindInEdit_def L_def wcsstr_at_def CharLowerBuffW_def ref_platform_def
      ref_lower_def back_scan.simps wrap_scan.simps)

text \<open>
  C5. Replace-all, for a non-empty needle: the routine returns, and the count it
  returns is the number of non-overlapping occurrences met from left to right, the
  scan resuming right behind each occurrence counted; the occurrences counted fit into
  the text, and the new text has exactly the length the routine computes for its
  result buffer, \<open>len - count * needleLen + count * replLen\<close>. Replacing ``aa'' by
  ``b'' in ``aaa'', case-sensitively, returns 1 and leaves ``ba''.
\<close>

theorem C5_replace_all_count_and_length:
  "(needle \<noteq> [] \<longrightarrow>
      (\<exists>count app'.
         ReplaceAllOccurrences P app (Some needle) replacement matchCase = Some (count, app') \<and>
         count = count_spec 0 (comparison_copy P matchCase (edit_text app))
                   (comparison_copy P matchCase needle) \<and>
         count * length needle \<le> length (edit_text app) \<and>
         length (edit_text app') =
           newLen (length (edit_text app)) count (length needle)
             (case replacement of None \<Rightarrow> 0 | Some r \<Rightarrow> length r))) \<and>
   ReplaceAllOccurrences P \<lparr>edit_text = L ''aaa'', modified = m, encoding = e\<rparr>
       (Some (L ''aa'')) (Some (L ''b'')) True =
     Some (1, \<lparr>edit_text = L ''ba'', modified = True, encoding = e\<rparr>)"
proof (intro conjI impI)
  assume needle: "needle \<noteq> []"
  define sb where "sb = comparison_copy P matchCase (edit_text app)"
  define nb where "nb = comparison_copy P matchCase needle"
  define repl where "repl = (case replacement of None \<Rightarrow> [] | Some r \<Rightarrow> r)"
  define count where "count = count_spec 0 sb nb"
  define app' where "app' =
    (if count = 0 then app
     else app\<lparr>edit_text := replace_spec 0 (edit_text app) sb nb repl, modified := True\<rparr>)"
  have nb: "nb \<noteq> []" "length nb = length needle" using needle by (simp_all add: nb_def)
  have len: "length (edit_text app) = length sb" by (simp add: sb_def)
  have run: "ReplaceAllOccurrences P app (Some needle) replacement matchCase = Some (count, app')"
    unfolding ReplaceAllOccurrences_eq [OF needle] Let_def app'_def count_def sb_def nb_def repl_def ..
  have out: "edit_text app' = replace_spec 0 (edit_text app) sb nb repl"
    using ReplaceAllOccurrences_text [OF needle run] by (simp add: sb_def nb_def repl_def)
  have bound: "count * length needle \<le> length (edit_text app)"
    using count_spec_bound [OF nb(1), of sb] by (simp add: count_def nb(2) len)
  have rl: "(case replacement of None \<Rightarrow> 0 | Some r \<Rightarrow> length r) = length repl"
    by (simp add: repl_def split: option.splits)
  have "length (edit_text app') + count * length needle =
        length (edit_text app) + count * length repl"
    using replace_spec_length [OF nb(1) len, of repl] by (simp add: out count_def nb(2))
  with bound have "length (edit_text app') =
      newLen (length (edit_text app)) count (length needle) (length repl)"
    by (simp add: newLen_def)
  with run bound show "\<exists>count app'.
         ReplaceAllOccurrences P app (Some needle) replacement matchCase = Some (count, app') \<and>
         count = count_spec 0 (comparison_copy P matchCase (edit_text app))
                   (comparison_copy P matchCase needle) \<and>
         count * length needle \<le> length (edit_text app) \<and>
         length (edit_text app') =
           newLen (length (edit_text app)) count (length needle)
             (case replacement of None \<Rightarrow> 0 | Some r \<Rightarrow> length r)"
    unfolding rl by (auto simp: count_def sb_def nb_def)
next
  have "L ''aa'' \<noteq> []" by (simp add: L_def)
  then show "ReplaceAllOccurrences P \<lparr>edit_text = L ''aaa'', modified = m, encoding = e\<rparr>
       (Some (L ''aa'')) (Some (L ''b'')) True =
     Some (1, \<lparr>edit_text = L ''ba'', modified = True, encoding = e\<rparr>)"
    by (simp add: ReplaceAllOccurrences_eq comparison_copy_def L_def)
qed

text \<open>The hypothesis of C5 at a concrete replacement that makes the text longer.\<close>

theorem C5_replace_all_count_and_length_witness:
  "L ''ab'' \<noteq> [] \<and>
   ReplaceAllOccurrences ref_platform
       \<lparr>edit_text = L ''abABab'', modified = False, encoding = ENC_UTF8\<rparr>
       (Some (L ''ab'')) (Some (L ''xyz'')) True =
     Some (2, \<lparr>edit_text = L ''xyzABxyz'', modified = True, encoding = ENC_UTF8\<rparr>) \<and>
   length (L ''xyzABxyz'') = newLen (length (L ''abABab'')) 2 (length (L ''ab'')) (length (L ''xyz''))"
  using C5_replace_all_count_and_length [of "L ''ab''" ref_platform
      "\<lparr>edit_text = L ''abABab'', modified = False, encoding = ENC_UTF8\<rparr>"
      "Some (L ''xyz'')" True]
  by (simp (no_asm) add: ReplaceAllOccurrences_eq comparison_copy_def L_def newLen_def)

text \<open>
  C6. Case-insensitive replace-all, for a non-empty needle: occurrences are located
  in the lower-cased copies of text and needle, and every code unit outside an
  occurrence is copied from the original text, in its original case. On a platform
  that lower-cases ASCII letters, replacing ``Foo'' by ``X'' in ``foo FOO bar''
  leaves ``X X bar''.
\<close>

theorem C6_case_insensitive_replace_keeps_case:
  "(needle \<noteq> [] \<longrightarrow>
      (\<exists>count app'.
         ReplaceAllOccurrences P app (Some needle) replacement False = Some (count, app') \<and>
         edit_text app' =
           replace_spec 0 (edit_text app) (map (CharLowerW P) (edit_text app))
             (map (CharLowerW P) needle) (case replacement of None \<Rightarrow> [] | Some r \<Rightarrow> r))) \<and>
   (lowers_ascii P \<longrightarrow>
      ReplaceAllOccurrences P \<lparr>edit_text = L ''foo FOO bar'', modified = m, encoding = e\<rparr>
          (Some (L ''Foo'')) (Some (L ''X'')) False =
        Some (2, \<lparr>edit_text = L ''X X bar'', modified = True, encoding = e\<rparr>))"
proof (intro conjI impI)
  assume needle: "needle \<noteq> []"
  obtain count app' where
    run: "ReplaceAllOccurrences P app (Some needle) replacement False = Some (count, app')"
    unfolding ReplaceAllOccurrences_eq [OF needle] Let_def by blast
  from ReplaceAllOccurrences_text [OF needle run] run
  show "\<exists>count app'.
         ReplaceAllOccurrences P app (Some needle) replacement False = Some (count, app') \<and>
         edit_text app' =
           replace_spec 0 (edit_text app) (map (CharLowerW P) (edit_text app))
             (map (CharLowerW P) needle) (case replacement of None \<Rightarrow> [] | Some r \<Rightarrow> r)"
    by (auto simp: comparison_copy_def CharLowerBuffW_def)
next
  assume ascii: "lowers_ascii P"
  have hay: "map (CharLowerW P) (L ''foo FOO bar'') = L ''foo foo bar''"
    by (subst lowers_ascii_map [OF ascii]) (simp_all add: L_def ref_lower_def)
  have ndl: "map (CharLowerW P) (L ''Foo'') = L ''foo''"
    by (subst lowers_ascii_map [OF ascii]) (simp_all add: L_def ref_lower_def)
  have "L ''Foo'' \<noteq> []" by (simp add: L_def)
  then show "ReplaceAllOccurrences P \<lparr>edit_text = L ''foo FOO bar'', modified = m, encoding = e\<rparr>
          (Some (L ''Foo'')) (Some (L ''X'')) False =
        Some (2, \<lparr>edit_text = L ''X X bar'', modified = True, encoding = e\<rparr>)"
    by (simp add: ReplaceAllOccurrences_eq comparison_copy_def CharLowerBuffW_def hay ndl)
       (simp add: L_def)
qed

text \<open>
  The hypotheses of C6 on the reference platform, with capitals in the spans that
  are kept.
\<close>

theorem C6_case_insensitive_replace_keeps_case_witness:
  "L ''foo'' \<noteq> [] \<and> lowers_ascii ref_platform \<and>
   ReplaceAllOccurrences ref_platform
       \<lparr>edit_text = L ''Bar FOO Baz fOo'', modified = False, encoding = ENC_UTF8\<rparr>
       (Some (L ''foo'')) (Some (L ''X'')) False =
     Some (2, \<lparr>edit_text = L ''Bar X Baz X'', modified = True, encoding = ENC_UTF8\<rparr>)"
  using C6_case_insensitive_replace_keeps_case [of "L ''foo''" ref_platform
      "\<lparr>edit_text = L ''Bar FOO Baz fOo'', modified = False, encoding = ENC_UTF8\<rparr>"
      "Some (L ''X'')"]
  by (simp (no_asm) add: ReplaceAllOccurrences_eq comparison_copy_def CharLowerBuffW_def L_def
      lowers_ascii_def ref_platform_def ref_lower_def)

text \<open>
  C7. \<^verbatim>\<open>DetectEncoding\<close> classifies every byte sequence by a fixed cascade: a
  leading \<open>FF FE\<close> gives UTF-16LE; otherwise a leading \<open>FE FF\<close> gives UTF-16BE;
  otherwise a leading \<open>EF BB BF\<close> gives UTF-8; otherwise UTF-8 if the strict UTF-8
  validation call accepts the whole content, and ANSI if it does not. So a buffer that
  starts \<open>FF FE EF BB BF\<close> is UTF-16LE, and a buffer without byte order mark that
  passes the validation is UTF-8.
\<close>

theorem C7_detect_cascade:
  "DetectEncoding P data =
     (if prefix [0xFF, 0xFE] data then ENC_UTF16LE
      else if prefix [0xFE, 0xFF] data then ENC_UTF16BE
      else if prefix [0xEF, 0xBB, 0xBF] data then ENC_UTF8
      else if passes_strict_utf8 P data then ENC_UTF8
      else ENC_ANSI) \<and>
   DetectEncoding P (0xFF # 0xFE # 0xEF # 0xBB # 0xBF # rest) = ENC_UTF16LE \<and>
   (\<not> prefix [0xFF, 0xFE] data \<and> \<not> prefix [0xFE, 0xFF] data \<and>
    \<not> prefix [0xEF, 0xBB, 0xBF] data \<and> passes_strict_utf8 P data \<longrightarrow>
      DetectEncoding P data = ENC_UTF8)"
proof -
  have cascade: "DetectEncoding P data =
     (if prefix [0xFF, 0xFE] data then ENC_UTF16LE
      else if prefix [0xFE, 0xFF] data then ENC_UTF16BE
      else if prefix [0xEF, 0xBB, 0xBF] data then ENC_UTF8
      else if passes_strict_utf8 P data then ENC_UTF8
      else ENC_ANSI)" for data
    unfolding prefix2 prefix3 DetectEncoding_def passes_strict_utf8_def Let_def by simp
  show ?thesis
    by (intro conjI impI) (simp_all add: cascade)
qed

text \<open>The hypotheses of the last part of C7 at the two ASCII bytes of ``hi''.\<close>

theorem C7_detect_cascade_witness:
  "\<not> prefix [0xFF, 0xFE] [0x68, 0x69 :: BYTE] \<and> \<not> prefix [0xFE, 0xFF] [0x68, 0x69 :: BYTE] \<and>
   \<not> prefix [0xEF, 0xBB, 0xBF] [0x68, 0x69 :: BYTE] \<and>
   passes_strict_utf8 ref_platform [0x68, 0x69] \<and>
   DetectEncoding ref_platform [0x68, 0x69] = ENC_UTF8"
  using C7_detect_cascade [of ref_platform "[0x68, 0x69]"]
  by (simp (no_asm) add: DetectEncoding_def passes_strict_utf8_def MultiByteToWideChar_def
      ref_platform_def utf16_units_def)

text \<open>
  C8. Decoding as UTF-16LE or UTF-16BE fails exactly on inputs shorter than two bytes.
  On longer inputs it succeeds, skips the byte order mark of the requested encoding
  when the input starts with it, and yields one code unit for every complete pair of
  the remaining bytes, each pair read in the byte order of the encoding; a trailing
  odd byte changes nothing, and an input that is only the byte order mark decodes to
  the empty text.
\<close>

theorem C8_utf16_decode:
  "enc = ENC_UTF16LE \<or> enc = ENC_UTF16BE \<Longrightarrow>
   (DecodeToWide P data enc = None \<longleftrightarrow> length data < 2) \<and>
   (2 \<le> length data \<longrightarrow>
      (let off = (if prefix (utf16_bom enc) data then 2 else 0)
       in \<exists>ws. DecodeToWide P data enc = Some ws \<and>
                length ws = (length data - off) div 2 \<and>
                (\<forall>i<length ws.
                   ws ! i = utf16_unit enc (data ! (off + 2 * i)) (data ! (off + 2 * i + 1))))) \<and>
   (2 \<le> length data \<and> even (length data) \<longrightarrow>
      DecodeToWide P (data @ [b]) enc = DecodeToWide P data enc) \<and>
   DecodeToWide P (utf16_bom enc) enc = Some []"
proof (intro conjI impI)
  assume enc: "enc = ENC_UTF16LE \<or> enc = ENC_UTF16BE"
  note eq = utf16_decode_eq [OF enc]
  show "DecodeToWide P data enc = None \<longleftrightarrow> length data < 2"
    unfolding eq by simp
  show "DecodeToWide P (utf16_bom enc) enc = Some []"
    unfolding eq using enc by auto
  {
    assume "2 \<le> length data"
    then show "let off = (if prefix (utf16_bom enc) data then 2 else 0)
       in \<exists>ws. DecodeToWide P data enc = Some ws \<and>
                length ws = (length data - off) div 2 \<and>
                (\<forall>i<length ws.
                   ws ! i = utf16_unit enc (data ! (off + 2 * i)) (data ! (off + 2 * i + 1)))"
      unfolding eq Let_def by simp
  }
  {
    assume h: "2 \<le> length data \<and> even (length data)"
    define off :: nat where "off = (if prefix (utf16_bom enc) data then 2 else 0)"
    have pre: "prefix (utf16_bom enc) (data @ [b]) \<longleftrightarrow> prefix (utf16_bom enc) data"
      using enc h by (auto simp: prefix2 nth_append)
    have off: "off = 0 \<or> off = 2" by (simp add: off_def)
    have cnt: "(length (data @ [b]) - off) div 2 = (length data - off) div 2"
    proof -
      obtain k where k: "length data = 2 * k" "1 \<le> k" using h by (auto elim!: evenE)
      from off show ?thesis
      proof
        assume "off = 0"
        then show ?thesis using k by simp
      next
        assume "off = 2"
        moreover have "2 * k + 1 - 2 = 2 * (k - 1) + 1" "2 * k - 2 = 2 * (k - 1)"
          using k(2) by simp_all
        ultimately show ?thesis using k(1) by simp
      qed
    qed
    have idx: "i < (length data - off) div 2 \<Longrightarrow>
        (data @ [b]) ! (off + 2 * i) = data ! (off + 2 * i) \<and>
        (data @ [b]) ! (off + 2 * i + 1) = data ! (off + 2 * i + 1)" for i
      using off h by (auto simp: nth_append)
    show "DecodeToWide P (data @ [b]) enc = DecodeToWide P data enc"
      unfolding eq pre off_def [symmetric] cnt using h idx by auto
  }
qed

text \<open>
  The hypotheses of C8 at a big-endian input with byte order mark, one code unit and
  a trailing odd byte.
\<close>

theorem C8_utf16_decode_witness:
  "(ENC_UTF16BE = ENC_UTF16LE \<or> ENC_UTF16BE = ENC_UTF16BE) \<and>
   2 \<le> length [0xFE, 0xFF, 0x00, 0x41, 0x42 :: BYTE] \<and>
   DecodeToWide ref_platform [0xFE, 0xFF, 0x00, 0x41, 0x42] ENC_UTF16BE = Some [0x41] \<and>
   DecodeToWide ref_platform [0xFE, 0xFF, 0x00, 0x41] ENC_UTF16BE = Some [0x41] \<and>
   DecodeToWide ref_platform [0xFE] ENC_UTF16BE = None"
  using C8_utf16_decode [of ENC_UTF16BE ref_platform "[0xFE, 0xFF, 0x00, 0x41, 0x42]" 0]
  by (simp (no_asm) add: DecodeToWide_def wchar_of_def upt_rec)

text \<open>
  C10. Loading a file of zero bytes succeeds with the empty text and reports UTF-8,
  whatever the platform: the result does not come from \<^verbatim>\<open>DetectEncoding\<close>, which on
  the empty byte sequence answers ANSI, since the strict validation call rejects a
  source of size 0.
\<close>

theorem C10_empty_file_load_and_detect:
  "LoadTextFile P [] = Some ([], ENC_UTF8) \<and> DetectEncoding P [] = ENC_ANSI"
  by (simp add: LoadTextFile_def DetectEncoding_def MultiByteToWideChar_def)

text \<open>
  C1. A save requested as UTF-16BE writes what a UTF-8 save writes, the UTF-8 byte
  order mark followed by the UTF-8 bytes of the text; but \<^verbatim>\<open>SaveTextFile\<close> changes
  only its own by-value parameter to UTF-8, and the encoding \<^verbatim>\<open>DoFileSave\<close> keeps
  for the document is still UTF-16BE after the call. Evaluated for the text ``a''.
\<close>

theorem C1_DoFileSave_leaves_UTF16BE:
  "SaveTextFile ref_platform (L ''a'') ENC_UTF16BE = (True, [0xEF, 0xBB, 0xBF, 0x61], ENC_UTF8) \<and>
   SaveTextFile ref_platform (L ''a'') ENC_UTF8 = (True, [0xEF, 0xBB, 0xBF, 0x61], ENC_UTF8) \<and>
   DoFileSave ref_platform \<lparr>edit_text = L ''a'', modified = True, encoding = ENC_UTF16BE\<rparr> =
     (True, [0xEF, 0xBB, 0xBF, 0x61],
      \<lparr>edit_text = L ''a'', modified = False, encoding = ENC_UTF16BE\<rparr>)"
  by (simp add: DoFileSave_def SaveTextFile_def WriteUTF8WithBOM_def WideCharToMultiByte_def
      ref_platform_def L_def)

text \<open>
  C2, as stated, fails where a platform conversion is lossy, as it is meant to be: on
  the reference platform an ANSI save of U+4E2D, which ISO 8859-1 cannot represent,
  writes the substitution character \<open>?\<close> and decodes to \<open>?\<close>; and a UTF-8 save of the
  unpaired surrogate D800 writes the bytes of U+FFFD and decodes to U+FFFD.
\<close>

theorem C2_round_trip_counterexample:
  "SaveTextFile ref_platform [0x4E2D] ENC_ANSI = (True, [0x3F], ENC_ANSI) \<and>
   DecodeToWide ref_platform (fst (snd (SaveTextFile ref_platform [0x4E2D] ENC_ANSI))) ENC_ANSI =
     Some [0x3F] \<and>
   DecodeToWide ref_platform (fst (snd (SaveTextFile ref_platform [0x4E2D] ENC_ANSI))) ENC_ANSI \<noteq>
     Some [0x4E2D] \<and>
   SaveTextFile ref_platform [0xD800] ENC_UTF8 =
     (True, [0xEF, 0xBB, 0xBF, 0xEF, 0xBF, 0xBD], ENC_UTF8) \<and>
   DecodeToWide ref_platform (fst (snd (SaveTextFile ref_platform [0xD800] ENC_UTF8))) ENC_UTF8 =
     Some [0xFFFD] \<and>
   DecodeToWide ref_platform (fst (snd (SaveTextFile ref_platform [0xD800] ENC_UTF8))) ENC_UTF8 \<noteq>
     Some [0xD800]"
  by (simp add: SaveTextFile_def WriteANSI_def WriteUTF8WithBOM_def WideCharToMultiByte_def
      DecodeToWide_def MultiByteToWideChar_def Let_def ref_platform_def
      ref_wide_to_acp_def ref_acp_to_wide_def utf16_units_def is_cont_def)

text \<open>
  C2, amended. For every text, a UTF-16LE save succeeds and decoding its bytes as
  UTF-16LE gives the text back. On a platform whose UTF-8 conversion is faithful, the
  same holds under UTF-8 for every non-empty text without unpaired surrogates. On a
  platform whose code-page conversion is faithful on the repertoire \<open>S\<close>, the same
  holds under ANSI for every non-empty text over \<open>S\<close>.
\<close>

theorem C2_round_trip_amended:
  "(fst (SaveTextFile P t ENC_UTF16LE) \<and>
    DecodeToWide P (fst (snd (SaveTextFile P t ENC_UTF16LE))) ENC_UTF16LE = Some t) \<and>
   (utf8_conversion_faithful P \<and> t \<noteq> [] \<and> well_formed_utf16 t \<longrightarrow>
      fst (SaveTextFile P t ENC_UTF8) \<and>
      DecodeToWide P (fst (snd (SaveTextFile P t ENC_UTF8))) ENC_UTF8 = Some t) \<and>
   (acp_conversion_faithful P S \<and> t \<noteq> [] \<and> set t \<subseteq> S \<longrightarrow>
      fst (SaveTextFile P t ENC_ANSI) \<and>
      DecodeToWide P (fst (snd (SaveTextFile P t ENC_ANSI))) ENC_ANSI = Some t)"
proof (intro conjI impI)
  show "fst (SaveTextFile P t ENC_UTF16LE)"
    and "DecodeToWide P (fst (snd (SaveTextFile P t ENC_UTF16LE))) ENC_UTF16LE = Some t"
    using utf16le_round_trip [of P t] by simp_all
next
  assume "utf8_conversion_faithful P \<and> t \<noteq> [] \<and> well_formed_utf16 t"
  then have "t \<noteq> []" "wide_to_utf8 P t \<noteq> []" "utf8_to_wide P (wide_to_utf8 P t) = t"
    by (auto simp: utf8_conversion_faithful_def)
  from utf8_round_trip [OF this]
  show "fst (SaveTextFile P t ENC_UTF8)"
    and "DecodeToWide P (fst (snd (SaveTextFile P t ENC_UTF8))) ENC_UTF8 = Some t"
    by simp_all
next
  assume "acp_conversion_faithful P S \<and> t \<noteq> [] \<and> set t \<subseteq> S"
  then have "t \<noteq> []" "wide_to_acp P t \<noteq> []" "acp_to_wide P (wide_to_acp P t) = t"
    by (auto simp: acp_conversion_faithful_def)
  from ansi_round_trip [OF this]
  show "fst (SaveTextFile P t ENC_ANSI)"
    and "DecodeToWide P (fst (snd (SaveTextFile P t ENC_ANSI))) ENC_ANSI = Some t"
    by simp_all
qed

text \<open>
  The hypotheses of the amended C2 on the reference platform: its conversions are
  faithful, for ISO 8859-1 on the code units below 256, and the law is evaluated at a
  text with a character outside ASCII and at a surrogate pair.
\<close>

theorem C2_round_trip_amended_witness:
  "utf8_conversion_faithful ref_platform \<and>
   acp_conversion_faithful ref_platform {c. c < 0x100} \<and>
   [0x68, 0xE9] \<noteq> ([] :: WCHAR list) \<and> well_formed_utf16 [0x68, 0xE9] \<and>
   set [0x68, 0xE9 :: WCHAR] \<subseteq> {c. c < 0x100} \<and>
   SaveTextFile ref_platform [0x68, 0xE9] ENC_UTF8 =
     (True, [0xEF, 0xBB, 0xBF, 0x68, 0xC3, 0xA9], ENC_UTF8) \<and>
   DecodeToWide ref_platform [0xEF, 0xBB, 0xBF, 0x68, 0xC3, 0xA9] ENC_UTF8 = Some [0x68, 0xE9] \<and>
   SaveTextFile ref_platform [0x68, 0xE9] ENC_ANSI = (True, [0x68, 0xE9], ENC_ANSI) \<and>
   DecodeToWide ref_platform [0x68, 0xE9] ENC_ANSI = Some [0x68, 0xE9] \<and>
   SaveTextFile ref_platform [0x68, 0xE9] ENC_UTF16LE =
     (True, [0xFF, 0xFE, 0x68, 0x00, 0xE9, 0x00], ENC_UTF16LE) \<and>
   DecodeToWide ref_platform [0xFF, 0xFE, 0x68, 0x00, 0xE9, 0x00] ENC_UTF16LE = Some [0x68, 0xE9] \<and>
   well_formed_utf16 [0xD83D, 0xDE00] \<and>
   SaveTextFile ref_platform [0xD83D, 0xDE00] ENC_UTF8 =
     (True, [0xEF, 0xBB, 0xBF, 0xF0, 0x9F, 0x98, 0x80], ENC_UTF8) \<and>
   DecodeToWide ref_platform [0xEF, 0xBB, 0xBF, 0xF0, 0x9F, 0x98, 0x80] ENC_UTF8 =
     Some [0xD83D, 0xDE00]"
proof -
  have eval:
    "[0x68, 0xE9] \<noteq> ([] :: WCHAR list) \<and> well_formed_utf16 [0x68, 0xE9] \<and>
     set [0x68, 0xE9 :: WCHAR] \<subseteq> {c. c < 0x100} \<and>
     SaveTextFile ref_platform [0x68, 0xE9] ENC_UTF8 =
       (True, [0xEF, 0xBB, 0xBF, 0x68, 0xC3, 0xA9], ENC_UTF8) \<and>
     DecodeToWide ref_platform [0xEF, 0xBB, 0xBF, 0x68, 0xC3, 0xA9] ENC_UTF8 = Some [0x68, 0xE9] \<and>
     SaveTextFile ref_platform [0x68, 0xE9] ENC_ANSI = (True, [0x68, 0xE9], ENC_ANSI) \<and>
     DecodeToWide ref_platform [0x68, 0xE9] ENC_ANSI = Some [0x68, 0xE9] \<and>
     SaveTextFile ref_platform [0x68, 0xE9] ENC_UTF16LE =
       (True, [0xFF, 0xFE, 0x68, 0x00, 0xE9, 0x00], ENC_UTF16LE) \<and>
     DecodeToWide ref_platform [0xFF, 0xFE, 0x68, 0x00, 0xE9, 0x00] ENC_UTF16LE =
       Some [0x68, 0xE9] \<and>
     well_formed_utf16 [0xD83D, 0xDE00] \<and>
     SaveTextFile ref_platform [0xD83D, 0xDE00] ENC_UTF8 =
       (True, [0xEF, 0xBB, 0xBF, 0xF0, 0x9F, 0x98, 0x80], ENC_UTF8) \<and>
     DecodeToWide ref_platform [0xEF, 0xBB, 0xBF, 0xF0, 0x9F, 0x98, 0x80] ENC_UTF8 =
       Some [0xD83D, 0xDE00]"
    by (simp add: SaveTextFile_def WriteUTF8WithBOM_def WriteANSI_def WriteUTF16LE_def
        WideCharToMultiByte_def MultiByteToWideChar_def DecodeToWide_def ref_platform_def
        ref_wide_to_acp_def ref_acp_to_wide_def utf16_units_def is_cont_def wchar_bytes_def
        wchar_of_def upt_rec)
  from C2_round_trip_amended [of ref_platform "[0x68, 0xE9]" "{c. c < 0x100}"]
    C2_round_trip_amended [of ref_platform "[0xD83D, 0xDE00]" "{c. c < 0x100}"]
    ref_platform_utf8_faithful ref_platform_acp_faithful eval
  show ?thesis by blast
qed

end
